theory Spec2Isabelle
  imports Complex_Main "HOL-Library.Word" "HOL-Library.Signed_Division" "HOL-Library.Log_Nat"
begin

section \<open>The framebuffer drawing primitives of driver\_framebuffer\_drawing.cpp\<close>

text \<open>
  Every drawing function of the source takes a window and reaches it only through
  \<open>driver_framebuffer_setPixel(window, x, y, color)\<close>. The embedding drops the window
  and returns the sequence of \<open>setPixel\<close> calls the function issues, in program order.
  The result is an option: \<open>None\<close> stands for a call that never returns (a loop whose
  16-bit counter wraps around) or that runs into undefined behaviour.
\<close>

type_synonym int16 = "16 word"
type_synonym uint16 = "16 word"
type_synonym color = "32 word"
type_synonym pixel = "int \<times> int \<times> color"

subsection \<open>Line\<close>

text \<open>
  The body of the \<open>for (; x0<=x1; x0++)\<close> loop of \<open>driver_framebuffer_line\<close>. All
  variables are \<open>int16_t\<close>: \<open>x0++\<close>, \<open>err -= dy\<close>, \<open>y0 += ystep\<close> and \<open>err += dx\<close>
  are computed in \<open>int\<close> and stored back into 16 bits, which is the wrap-around of
  word arithmetic; the comparisons are signed.
\<close>

partial_function (option) line_loop ::
  "bool \<Rightarrow> int16 \<Rightarrow> int16 \<Rightarrow> int16 \<Rightarrow> color \<Rightarrow> int16 \<Rightarrow> int16 \<Rightarrow> int16 \<Rightarrow> int16 \<Rightarrow> pixel list option"
where
  "line_loop steep dx dy ystep color x1 x0 y0 err =
     (if sint x0 \<le> sint x1 then
        let p = (if steep then (sint y0, sint x0, color) else (sint x0, sint y0, color));
            err1 = err - dy
        in if sint err1 < 0
           then Option.bind (line_loop steep dx dy ystep color x1 (x0 + 1) (y0 + ystep) (err1 + dx))
                  (\<lambda>ps. Some (p # ps))
           else Option.bind (line_loop steep dx dy ystep color x1 (x0 + 1) y0 err1)
                  (\<lambda>ps. Some (p # ps))
      else Some [])"

declare line_loop.simps [code]

text \<open>
  The set-up of \<open>driver_framebuffer_line\<close>: \<open>abs(y1 - y0) > abs(x1 - x0)\<close> is computed in
  \<open>int\<close> (no overflow on 16-bit operands); \<open>dx = x1 - x0\<close> and \<open>dy = abs(y1 - y0)\<close> are
  stored into \<open>int16_t\<close>; \<open>dx / 2\<close> is C's division, truncating towards zero.
\<close>

definition line_order :: "int16 \<Rightarrow> int16 \<Rightarrow> int16 \<Rightarrow> int16 \<Rightarrow> bool \<times> int16 \<times> int16 \<times> int16 \<times> int16" where
  "line_order x0 y0 x1 y1 =
     (let steep = \<bar>sint y1 - sint y0\<bar> > \<bar>sint x1 - sint x0\<bar>;
          (a0, b0, a1, b1) = (if steep then (y0, x0, y1, x1) else (x0, y0, x1, y1))
      in if sint a0 > sint a1 then (steep, a1, b1, a0, b0) else (steep, a0, b0, a1, b1))"

definition driver_framebuffer_line :: "int16 \<Rightarrow> int16 \<Rightarrow> int16 \<Rightarrow> int16 \<Rightarrow> color \<Rightarrow> pixel list option" where
  "driver_framebuffer_line x0 y0 x1 y1 color =
     (case line_order x0 y0 x1 y1 of (steep, a0, b0, a1, b1) \<Rightarrow>
        let dx = a1 - a0;
            dy = (word_of_int \<bar>sint b1 - sint b0\<bar> :: int16);
            err = (word_of_int (sint dx sdiv 2) :: int16);
            ystep = (if sint b0 < sint b1 then 1 else - 1)
        in line_loop steep dx dy ystep color a1 a0 b0 err)"

text \<open>
  The coordinate along which the loop of \<open>driver_framebuffer_line\<close> advances: the second
  argument of \<open>setPixel\<close> for a steep line, the first otherwise.
\<close>

definition dominant :: "bool \<Rightarrow> pixel \<Rightarrow> int" where
  "dominant steep p = (if steep then fst (snd p) else fst p)"

subsection \<open>Rectangle\<close>

text \<open>
  The fill loop \<open>for (int16_t i=x; i<x+w; i++)\<close> of \<open>driver_framebuffer_rect\<close>. The
  bound \<open>x+w\<close> is an \<open>int\<close> (\<open>x\<close> is \<open>int16_t\<close>, \<open>w\<close> is \<open>uint16_t\<close>, both promoted),
  the counter is an \<open>int16_t\<close> that wraps. The arguments \<open>y+h-1\<close> and \<open>x+w-1\<close> of
  \<open>driver_framebuffer_line\<close> are \<open>int\<close> values converted to its \<open>int16_t\<close> parameters,
  which is the 16-bit word arithmetic below.
\<close>

partial_function (option) rect_fill_loop ::
  "int \<Rightarrow> int16 \<Rightarrow> int16 \<Rightarrow> color \<Rightarrow> int16 \<Rightarrow> pixel list option"
where
  "rect_fill_loop bound y yend color i =
     (if sint i < bound then
        Option.bind (driver_framebuffer_line i y i yend color) (\<lambda>col.
        Option.bind (rect_fill_loop bound y yend color (i + 1)) (\<lambda>rest.
        Some (col @ rest)))
      else Some [])"

declare rect_fill_loop.simps [code]

definition driver_framebuffer_rect ::
  "int16 \<Rightarrow> int16 \<Rightarrow> uint16 \<Rightarrow> uint16 \<Rightarrow> bool \<Rightarrow> color \<Rightarrow> pixel list option" where
  "driver_framebuffer_rect x y w h fill color =
     (if fill then rect_fill_loop (sint x + uint w) y (y + h - 1) color x
      else
        Option.bind (driver_framebuffer_line x y (x + w - 1) y color) (\<lambda>top.
        Option.bind (driver_framebuffer_line x (y + h - 1) (x + w - 1) (y + h - 1) color) (\<lambda>bottom.
        Option.bind (driver_framebuffer_line x y x (y + h - 1) color) (\<lambda>left.
        Option.bind (driver_framebuffer_line (x + w - 1) y (x + w - 1) (y + h - 1) color) (\<lambda>right.
        Some (top @ bottom @ left @ right))))))"

subsection \<open>Double-precision arithmetic\<close>

text \<open>
  Triangle and Quad compute on \<open>double\<close>. A \<open>double\<close> is modelled by its IEEE 754
  binary64 value: a finite value (the rational it denotes; \<open>Fin 0\<close> is \<open>+0.0\<close>), the
  negative zero, the two infinities, or a NaN. Every operation computes the exact
  rational result and rounds it to the nearest representable value, ties to even, which
  is the arithmetic of the target's software floating point. A division by zero does
  not trap: it gives an infinity or a NaN.
\<close>

datatype double = Fin rat | NegZero | PInf | NInf | NaN

text \<open>\<open>ilog2 x\<close> is the integer part of the binary logarithm of a positive rational.\<close>

definition ilog2 :: "rat \<Rightarrow> int" where
  "ilog2 x = (if 1 \<le> x then bitlen \<lfloor>x\<rfloor> - 1 else - bitlen (\<lceil>1 / x\<rceil> - 1))"

definition round_half_even :: "rat \<Rightarrow> int" where
  "round_half_even q =
     (let f = \<lfloor>q\<rfloor>; r = q - of_int f
      in if r < 1 / 2 then f else if 1 / 2 < r then f + 1 else if even f then f else f + 1)"

text \<open>
  Rounding to a binary format with \<open>p\<close> significant bits and exponents from \<open>emin\<close> to
  \<open>emax\<close> (subnormal below \<open>2 ^ emin\<close>, infinite from \<open>2 ^ (emax + 1)\<close> on).
\<close>

definition fp_round :: "nat \<Rightarrow> int \<Rightarrow> int \<Rightarrow> rat \<Rightarrow> double" where
  "fp_round p emin emax x =
     (if x = 0 then Fin 0
      else
        let a = \<bar>x\<bar>;
            e = max (ilog2 a) emin;
            ulp = 2 powi (e - int p + 1);
            v = of_int (round_half_even (a / ulp)) * ulp
        in if 2 powi (emax + 1) \<le> v then (if 0 < x then PInf else NInf)
           else if v = 0 then (if 0 < x then Fin 0 else NegZero)
           else Fin (if 0 < x then v else - v))"

definition round_double :: "rat \<Rightarrow> double" where
  "round_double = fp_round 53 (- 1022) 1023"

text \<open>
  \<open>to_float\<close> is the value of a \<open>double\<close> after it has been stored in a \<open>float\<close>
  variable and read back: rounded to binary32.
\<close>

definition to_float :: "double \<Rightarrow> double" where
  "to_float d = (case d of Fin r \<Rightarrow> fp_round 24 (- 126) 127 r | _ \<Rightarrow> d)"

definition is_zero :: "double \<Rightarrow> bool" where
  "is_zero d = (d = Fin 0 \<or> d = NegZero)"

definition is_inf :: "double \<Rightarrow> bool" where
  "is_inf d = (d = PInf \<or> d = NInf)"

definition is_finite :: "double \<Rightarrow> bool" where
  "is_finite d = (case d of Fin r \<Rightarrow> True | NegZero \<Rightarrow> True | _ \<Rightarrow> False)"

definition signbit :: "double \<Rightarrow> bool" where
  "signbit d = (case d of Fin r \<Rightarrow> r < 0 | NegZero \<Rightarrow> True | NInf \<Rightarrow> True | _ \<Rightarrow> False)"

definition dval :: "double \<Rightarrow> rat" where
  "dval d = (case d of Fin r \<Rightarrow> r | _ \<Rightarrow> 0)"

definition dneg :: "double \<Rightarrow> double" where
  "dneg d = (case d of Fin r \<Rightarrow> (if r = 0 then NegZero else Fin (- r)) | NegZero \<Rightarrow> Fin 0
             | PInf \<Rightarrow> NInf | NInf \<Rightarrow> PInf | NaN \<Rightarrow> NaN)"

definition dadd :: "double \<Rightarrow> double \<Rightarrow> double" where
  "dadd a b =
     (if a = NaN \<or> b = NaN then NaN
      else if is_inf a then (if is_inf b \<and> a \<noteq> b then NaN else a)
      else if is_inf b then b
      else if a = NegZero then b
      else if b = NegZero then a
      else if dval a + dval b = 0 then Fin 0
      else round_double (dval a + dval b))"

definition dsub :: "double \<Rightarrow> double \<Rightarrow> double" where
  "dsub a b = dadd a (dneg b)"

definition dmul :: "double \<Rightarrow> double \<Rightarrow> double" where
  "dmul a b =
     (if a = NaN \<or> b = NaN then NaN
      else if (is_inf a \<and> is_zero b) \<or> (is_zero a \<and> is_inf b) then NaN
      else if is_inf a \<or> is_inf b then (if signbit a \<noteq> signbit b then NInf else PInf)
      else if is_zero a \<or> is_zero b then (if signbit a \<noteq> signbit b then NegZero else Fin 0)
      else round_double (dval a * dval b))"

definition ddiv :: "double \<Rightarrow> double \<Rightarrow> double" where
  "ddiv a b =
     (if a = NaN \<or> b = NaN then NaN
      else if (is_inf a \<and> is_inf b) \<or> (is_zero a \<and> is_zero b) then NaN
      else if is_inf a \<or> is_zero b then (if signbit a \<noteq> signbit b then NInf else PInf)
      else if is_inf b \<or> is_zero a then (if signbit a \<noteq> signbit b then NegZero else Fin 0)
      else round_double (dval a / dval b))"

text \<open>The comparisons \<open><\<close>, \<open><=\<close> and \<open>==\<close> on \<open>double\<close>: false when an operand is a NaN.\<close>

definition dlt :: "double \<Rightarrow> double \<Rightarrow> bool" where
  "dlt a b =
     (if a = NaN \<or> b = NaN then False
      else if a = PInf \<or> b = NInf then False
      else if a = NInf \<or> b = PInf then True
      else dval a < dval b)"

definition deq :: "double \<Rightarrow> double \<Rightarrow> bool" where
  "deq a b =
     (if a = NaN \<or> b = NaN then False
      else if is_inf a \<or> is_inf b then a = b
      else dval a = dval b)"

definition dle :: "double \<Rightarrow> double \<Rightarrow> bool" where
  "dle a b = (dlt a b \<or> deq a b)"

text \<open>
  The conversion \<open>(int) d\<close> truncates towards zero. Its behaviour is undefined when the
  truncated value is not an \<open>int\<close> (32 bits), in particular for an infinity or a NaN.
  \<open>double_of_int\<close> is the conversion of an \<open>int\<close> to \<open>double\<close>, which is exact.
\<close>

definition int_range :: "int \<Rightarrow> bool" where
  "int_range v = (- 2147483648 \<le> v \<and> v \<le> 2147483647)"

definition to_int :: "double \<Rightarrow> int option" where
  "to_int d =
     (case d of
        Fin r \<Rightarrow> (let t = (if 0 \<le> r then \<lfloor>r\<rfloor> else \<lceil>r\<rceil>) in if int_range t then Some t else None)
      | NegZero \<Rightarrow> Some 0
      | _ \<Rightarrow> None)"

definition double_of_int :: "int \<Rightarrow> double" where
  "double_of_int n = Fin (of_int n)"

text \<open>The decimal constants of the source, each the nearest \<open>double\<close>.\<close>

definition c_0_9999 :: double where "c_0_9999 = round_double (9999 / 10000)"
definition c_0_5 :: double where "c_0_5 = round_double (1 / 2)"
definition c_0_01 :: double where "c_0_01 = round_double (1 / 100)"

subsection \<open>Triangle\<close>

text \<open>
  The four compare-and-swap passes of \<open>driver_framebuffer_triangle\<close>. The source swaps
  through \<open>float temp\<close>: the coordinates that move down (\<open>y1 = temp\<close>, \<open>x1 = temp\<close>) have
  passed through a \<open>float\<close>, the ones that move up (\<open>y0 = y1\<close>) have not.
\<close>

type_synonym vertices = "double \<times> double \<times> double \<times> double \<times> double \<times> double"

definition swap01 :: "vertices \<Rightarrow> vertices" where
  "swap01 v = (case v of (x0, y0, x1, y1, x2, y2) \<Rightarrow>
     if dlt y1 y0 then (x1, y1, to_float x0, to_float y0, x2, y2) else v)"

definition swap12 :: "vertices \<Rightarrow> vertices" where
  "swap12 v = (case v of (x0, y0, x1, y1, x2, y2) \<Rightarrow>
     if dlt y2 y1 then (x0, y0, x2, y2, to_float x1, to_float y1) else v)"

definition swap02 :: "vertices \<Rightarrow> vertices" where
  "swap02 v = (case v of (x0, y0, x1, y1, x2, y2) \<Rightarrow>
     if dlt y2 y0 then (x2, y2, x1, y1, to_float x0, to_float y0) else v)"

definition triangle_sort :: "vertices \<Rightarrow> vertices" where
  "triangle_sort v = swap01 (swap02 (swap12 (swap01 v)))"

text \<open>
  The inner loop \<open>for (int j = 0; j < nXSteps; j++)\<close> with the lines before it:
  \<open>nXSteps = xC0 - xC1\<close>, negated (and the direction reversed) when negative. The
  arithmetic is on \<open>int\<close>; an overflow is undefined behaviour.
\<close>

definition scan_span :: "int \<Rightarrow> int \<Rightarrow> int \<Rightarrow> color \<Rightarrow> pixel list option" where
  "scan_span xC0 xC1 y color =
     (let d = xC0 - xC1 in
      if int_range d \<and> int_range (- d) then
        let nXSteps = (if d < 0 then - d else d);
            xStepMult = (if d < 0 then 1 else - 1)
        in Some (map (\<lambda>j. (xC0 + j * xStepMult, y, color)) [0 .. nXSteps - 1])
      else None)"

text \<open>
  The three conversions at the head of the body of a row loop, for row \<open>i\<close>:
  \<open>y = (int) (ys + yStep * i + 0.5)\<close>, \<open>xC0 = (int) (xs0 + xStep0 * i + 0.5)\<close>,
  \<open>xC1 = (int) (xs1 + xStep1 * i + 0.5)\<close>. The upper loop starts at \<open>y0, x0, x0\<close>, the
  lower loop at \<open>y1, xMiddle, x1\<close>.
\<close>

definition row_coord :: "double \<Rightarrow> double \<Rightarrow> int \<Rightarrow> int option" where
  "row_coord start step i = to_int (dadd (dadd start (dmul step (double_of_int i))) c_0_5)"

text \<open>
  A scanned row is recorded with its \<open>y\<close>, \<open>xC0\<close> and \<open>xC1\<close> and with the \<open>setPixel\<close>
  calls of its inner loop.
\<close>

type_synonym row = "(int \<times> int \<times> int) \<times> pixel list"

definition scan_row ::
  "double \<Rightarrow> double \<Rightarrow> double \<Rightarrow> double \<Rightarrow> double \<Rightarrow> double \<Rightarrow> color \<Rightarrow> int \<Rightarrow> row option" where
  "scan_row ys yStep xs0 xStep0 xs1 xStep1 color i =
     Option.bind (row_coord ys yStep i) (\<lambda>y.
     Option.bind (row_coord xs0 xStep0 i) (\<lambda>xC0.
     Option.bind (row_coord xs1 xStep1 i) (\<lambda>xC1.
     Option.bind (scan_span xC0 xC1 y color) (\<lambda>ps.
     Some ((y, xC0, xC1), ps)))))"

text \<open>
  A row loop \<open>for (int i = 0; i < nSteps; i++)\<close>: the rows \<open>0, \<dots>, nSteps - 1\<close> in
  order, undefined as soon as one row is.
\<close>

definition scan_rows ::
  "int \<Rightarrow> double \<Rightarrow> double \<Rightarrow> double \<Rightarrow> double \<Rightarrow> double \<Rightarrow> double \<Rightarrow> color \<Rightarrow> row list option" where
  "scan_rows nSteps ys yStep xs0 xStep0 xs1 xStep1 color =
     those (map (scan_row ys yStep xs0 xStep0 xs1 xStep1 color) [0 .. nSteps - 1])"

text \<open>
  A division of the body, \<open>a / b\<close>. Besides the quotient it records the divisor, after the
  divisors of the divisions executed before it.
\<close>

definition divide :: "double \<Rightarrow> double \<Rightarrow> double list \<Rightarrow> double \<times> double list" where
  "divide a b ds = (ddiv a b, ds @ [b])"

text \<open>
  The body of \<open>driver_framebuffer_triangle\<close> after the sort, statement by statement: the
  step sizes of the upper part and \<open>xMiddle\<close>, the upper row loop, the step sizes of the
  lower part, the lower row loop. The result is the rows scanned, upper part first, and the
  divisors of the divisions executed, in program order. There is no branch in the source
  between the sort and the first row loop, nor between the two row loops.
\<close>

definition triangle_body :: "vertices \<Rightarrow> color \<Rightarrow> (row list \<times> double list) option" where
  "triangle_body v color = (case v of (x0, y0, x1, y1, x2, y2) \<Rightarrow>
     let yDist = dsub y1 y0 in
     Option.bind (to_int (dadd yDist c_0_9999)) (\<lambda>nSteps.
       let (yStep, ds1) = divide yDist (double_of_int nSteps) [];
           (q, ds2) = divide (dsub x2 x0) (dsub y2 y0) ds1;
           xMiddle = dadd x0 (dmul q (dsub y1 y0));
           (xStep0, ds3) = divide (dsub xMiddle x0) (double_of_int nSteps) ds2;
           (xStep1, ds4) = divide (dsub x1 x0) (double_of_int nSteps) ds3
       in
       Option.bind (scan_rows nSteps y0 yStep x0 xStep0 x0 xStep1 color) (\<lambda>top.
         let yDist = dsub y2 y1 in
         Option.bind (to_int (dadd yDist c_0_9999)) (\<lambda>nSteps.
           let (q, ds5) = divide yDist (double_of_int nSteps) ds4;
               yStep = dadd q c_0_01;
               (xStep0, ds6) = divide (dsub x2 xMiddle) (double_of_int nSteps) ds5;
               (xStep1, ds7) = divide (dsub x2 x1) (double_of_int nSteps) ds6
           in
           Option.bind (scan_rows nSteps y1 yStep xMiddle xStep0 x1 xStep1 color) (\<lambda>bottom.
             Some (top @ bottom, ds7))))))"

text \<open>
  A call of \<open>driver_framebuffer_triangle\<close>: the sort, then the body. \<open>triangle_rows\<close> is
  the rows it scans, and the function itself the \<open>setPixel\<close> calls of these rows.
\<close>

definition triangle_run ::
  "double \<Rightarrow> double \<Rightarrow> double \<Rightarrow> double \<Rightarrow> double \<Rightarrow> double \<Rightarrow> color
     \<Rightarrow> (row list \<times> double list) option" where
  "triangle_run x0 y0 x1 y1 x2 y2 color =
     triangle_body (triangle_sort (x0, y0, x1, y1, x2, y2)) color"

definition triangle_rows ::
  "double \<Rightarrow> double \<Rightarrow> double \<Rightarrow> double \<Rightarrow> double \<Rightarrow> double \<Rightarrow> color \<Rightarrow> row list option" where
  "triangle_rows x0 y0 x1 y1 x2 y2 color = map_option fst (triangle_run x0 y0 x1 y1 x2 y2 color)"

definition driver_framebuffer_triangle ::
  "double \<Rightarrow> double \<Rightarrow> double \<Rightarrow> double \<Rightarrow> double \<Rightarrow> double \<Rightarrow> color \<Rightarrow> pixel list option" where
  "driver_framebuffer_triangle x0 y0 x1 y1 x2 y2 color =
     map_option (\<lambda>rows. concat (map snd rows)) (triangle_rows x0 y0 x1 y1 x2 y2 color)"

text \<open>
  The two parts of the body, each on its own and without the record of the divisors:
  \<open>xMiddle\<close>, the scan of the upper part and the scan of the lower part, on the sorted
  vertices. The rows of the body are the rows of \<open>triangle_scan\<close> (lemma
  \<open>triangle_body_scan\<close> below).
\<close>

definition xMiddle_of :: "vertices \<Rightarrow> double" where
  "xMiddle_of v = (case v of (x0, y0, x1, y1, x2, y2) \<Rightarrow>
     dadd x0 (dmul (ddiv (dsub x2 x0) (dsub y2 y0)) (dsub y1 y0)))"

definition triangle_top :: "vertices \<Rightarrow> color \<Rightarrow> row list option" where
  "triangle_top v color = (case v of (x0, y0, x1, y1, x2, y2) \<Rightarrow>
     let yDist = dsub y1 y0 in
     Option.bind (to_int (dadd yDist c_0_9999)) (\<lambda>nSteps.
       let yStep = ddiv yDist (double_of_int nSteps);
           xMiddle = xMiddle_of v;
           xStep0 = ddiv (dsub xMiddle x0) (double_of_int nSteps);
           xStep1 = ddiv (dsub x1 x0) (double_of_int nSteps)
       in scan_rows nSteps y0 yStep x0 xStep0 x0 xStep1 color))"

definition triangle_bottom :: "vertices \<Rightarrow> color \<Rightarrow> row list option" where
  "triangle_bottom v color = (case v of (x0, y0, x1, y1, x2, y2) \<Rightarrow>
     let yDist = dsub y2 y1 in
     Option.bind (to_int (dadd yDist c_0_9999)) (\<lambda>nSteps.
       let yStep = dadd (ddiv yDist (double_of_int nSteps)) c_0_01;
           xMiddle = xMiddle_of v;
           xStep0 = ddiv (dsub x2 xMiddle) (double_of_int nSteps);
           xStep1 = ddiv (dsub x2 x1) (double_of_int nSteps)
       in scan_rows nSteps y1 yStep xMiddle xStep0 x1 xStep1 color))"

definition triangle_scan :: "vertices \<Rightarrow> color \<Rightarrow> row list option" where
  "triangle_scan v color =
     Option.bind (triangle_top v color) (\<lambda>top.
     Option.bind (triangle_bottom v color) (\<lambda>bottom.
     Some (top @ bottom)))"

subsection \<open>Quad\<close>

definition driver_framebuffer_quad ::
  "double \<Rightarrow> double \<Rightarrow> double \<Rightarrow> double \<Rightarrow> double \<Rightarrow> double \<Rightarrow> double \<Rightarrow> double \<Rightarrow> color \<Rightarrow> pixel list option" where
  "driver_framebuffer_quad x0 y0 x1 y1 x2 y2 x3 y3 color =
     Option.bind (driver_framebuffer_triangle x0 y0 x1 y1 x2 y2 color) (\<lambda>t1.
     Option.bind (driver_framebuffer_triangle x1 y1 x3 y3 x2 y2 color) (\<lambda>t2.
     Option.bind (driver_framebuffer_triangle x0 y0 x1 y1 x3 y3 color) (\<lambda>t3.
     Option.bind (driver_framebuffer_triangle x1 y1 x2 y2 x3 y3 color) (\<lambda>t4.
     Some (t1 @ t2 @ t3 @ t4)))))"

subsection \<open>Circle\<close>

text \<open>
  \<open>driver_framebuffer_circle\<close> calls \<open>cos\<close> and \<open>sin\<close> of the C library, which are not
  part of the repository: the model takes them as the parameters \<open>cosd\<close> and \<open>sind\<close>.
  \<open>M_PI\<close> is the constant of \<open>math.h\<close>.
\<close>

definition M_PI :: double where
  "M_PI = round_double (314159265358979323846 / 100000000000000000000)"

text \<open>
  \<open>int px = x0 + f * cos(radians)\<close> with \<open>radians = i * M_PI / 180\<close>: the operands are
  converted to \<open>double\<close>, the result is converted to \<open>int\<close>.
\<close>

definition circle_coord :: "(double \<Rightarrow> double) \<Rightarrow> int \<Rightarrow> int \<Rightarrow> int \<Rightarrow> int option" where
  "circle_coord trig c0 f i =
     to_int (dadd (double_of_int c0)
       (dmul (double_of_int f) (trig (ddiv (dmul (double_of_int i) M_PI) (double_of_int 180)))))"

definition circle_sample ::
  "(double \<Rightarrow> double) \<Rightarrow> (double \<Rightarrow> double) \<Rightarrow> int16 \<Rightarrow> int16 \<Rightarrow> int \<Rightarrow> int \<Rightarrow> (int \<times> int) option" where
  "circle_sample cosd sind x0 y0 f i =
     Option.bind (circle_coord cosd (sint x0) f i) (\<lambda>px.
     Option.bind (circle_coord sind (sint y0) f i) (\<lambda>py.
     Some (px, py)))"

text \<open>
  The \<open>if\<close> of the inner loop: a Line from the previous sample when there is one and it
  differs, a single \<open>setPixel\<close> otherwise. The \<open>int\<close> arguments of
  \<open>driver_framebuffer_line\<close> are converted to its \<open>int16_t\<close> parameters.
\<close>

definition circle_step :: "color \<Rightarrow> (int \<times> int) option \<Rightarrow> int \<times> int \<Rightarrow> pixel list option" where
  "circle_step color prev p =
     (case prev of
        Some q \<Rightarrow>
          if fst q \<noteq> fst p \<or> snd q \<noteq> snd p
          then driver_framebuffer_line (word_of_int (fst q)) (word_of_int (snd q))
                 (word_of_int (fst p)) (word_of_int (snd p)) color
          else Some [(fst p, snd p, color)]
      | None \<Rightarrow> Some [(fst p, snd p, color)])"

text \<open>
  The inner loop \<open>for (int i=startAngle; i<endAngle; i++)\<close> over the angles of one radius,
  given the function that computes the sample of an angle. \<open>prev\<close> is \<open>None\<close> while
  \<open>havePrevPixel\<close> is false.
\<close>

fun circle_ring ::
  "(int \<Rightarrow> (int \<times> int) option) \<Rightarrow> color \<Rightarrow> (int \<times> int) option \<Rightarrow> int list \<Rightarrow> pixel list option" where
  "circle_ring smp color prev [] = Some []"
| "circle_ring smp color prev (i # is) =
     Option.bind (smp i) (\<lambda>p.
     Option.bind (circle_step color prev p) (\<lambda>ps.
     Option.bind (circle_ring smp color (Some p) is) (\<lambda>rest.
     Some (ps @ rest))))"

definition driver_framebuffer_circle ::
  "(double \<Rightarrow> double) \<Rightarrow> (double \<Rightarrow> double) \<Rightarrow> int16 \<Rightarrow> int16 \<Rightarrow> uint16 \<Rightarrow> uint16 \<Rightarrow> uint16 \<Rightarrow> bool
     \<Rightarrow> color \<Rightarrow> pixel list option" where
  "driver_framebuffer_circle cosd sind x0 y0 r startAngle endAngle fill color =
     (if uint endAngle \<le> uint startAngle then Some []
      else map_option concat (those (map
             (\<lambda>f. circle_ring (circle_sample cosd sind x0 y0 f) color None
                    [uint startAngle .. uint endAngle - 1])
             [(if fill then 0 else uint r) .. uint r])))"

text \<open>
  What the samples of a ring of radius 1000 around \<open>(0,0)\<close> look like for the angles 0 to
  359: all within the square of side 2000; on or above the row of the centre (\<open>y \<ge> 0\<close>)
  up to 180 degrees and at \<open>y \<le> -17\<close> from 181 degrees on; the samples of 180 and 181
  degrees not right of the centre; the first sample \<open>(1000, 0)\<close>.
\<close>

definition ring_profile :: "(int \<Rightarrow> (int \<times> int) option) \<Rightarrow> bool" where
  "ring_profile smp =
     (list_all (\<lambda>i. case smp i of
                  None \<Rightarrow> False
                | Some (x, y) \<Rightarrow> \<bar>x\<bar> \<le> 1000 \<and> \<bar>y\<bar> \<le> 1000 \<and>
                    (if i \<le> 180 then 0 \<le> y else y \<le> - 17) \<and>
                    (i = 180 \<or> i = 181 \<longrightarrow> x \<le> 0))
        [0 .. 359]
      \<and> smp 0 = Some (1000, 0))"

text \<open>
  The samples \<open>((int) (1000 * cos (i * M_PI / 180)), (int) (1000 * sin (i * M_PI / 180)))\<close>
  for \<open>i\<close> from 0 to 359, as an IEEE 754 C library computes them. The table is given: it
  is not derived from the model, where \<open>cos\<close> and \<open>sin\<close> are parameters.
\<close>

definition ring_1000_samples :: "(int \<times> int) list" where
  "ring_1000_samples =
    [(1000, 0), (999, 17), (999, 34), (998, 52), (997, 69), (996, 87), (994, 104), (992, 121),
     (990, 139), (987, 156), (984, 173), (981, 190), (978, 207), (974, 224), (970, 241),
     (965, 258), (961, 275), (956, 292), (951, 309), (945, 325), (939, 342), (933, 358),
     (927, 374), (920, 390), (913, 406), (906, 422), (898, 438), (891, 453), (882, 469),
     (874, 484), (866, 499), (857, 515), (848, 529), (838, 544), (829, 559), (819, 573),
     (809, 587), (798, 601), (788, 615), (777, 629), (766, 642), (754, 656), (743, 669),
     (731, 681), (719, 694), (707, 707), (694, 719), (681, 731), (669, 743), (656, 754),
     (642, 766), (629, 777), (615, 788), (601, 798), (587, 809), (573, 819), (559, 829),
     (544, 838), (529, 848), (515, 857), (500, 866), (484, 874), (469, 882), (453, 891),
     (438, 898), (422, 906), (406, 913), (390, 920), (374, 927), (358, 933), (342, 939),
     (325, 945), (309, 951), (292, 956), (275, 961), (258, 965), (241, 970), (224, 974),
     (207, 978), (190, 981), (173, 984), (156, 987), (139, 990), (121, 992), (104, 994),
     (87, 996), (69, 997), (52, 998), (34, 999), (17, 999), (0, 1000), (- 17, 999), (- 34, 999),
     (- 52, 998), (- 69, 997), (- 87, 996), (- 104, 994), (- 121, 992), (- 139, 990),
     (- 156, 987), (- 173, 984), (- 190, 981), (- 207, 978), (- 224, 974), (- 241, 970),
     (- 258, 965), (- 275, 961), (- 292, 956), (- 309, 951), (- 325, 945), (- 342, 939),
     (- 358, 933), (- 374, 927), (- 390, 920), (- 406, 913), (- 422, 906), (- 438, 898),
     (- 453, 891), (- 469, 882), (- 484, 874), (- 499, 866), (- 515, 857), (- 529, 848),
     (- 544, 838), (- 559, 829), (- 573, 819), (- 587, 809), (- 601, 798), (- 615, 788),
     (- 629, 777), (- 642, 766), (- 656, 754), (- 669, 743), (- 681, 731), (- 694, 719),
     (- 707, 707), (- 719, 694), (- 731, 681), (- 743, 669), (- 754, 656), (- 766, 642),
     (- 777, 629), (- 788, 615), (- 798, 601), (- 809, 587), (- 819, 573), (- 829, 559),
     (- 838, 544), (- 848, 529), (- 857, 515), (- 866, 499), (- 874, 484), (- 882, 469),
     (- 891, 453), (- 898, 438), (- 906, 422), (- 913, 406), (- 920, 390), (- 927, 374),
     (- 933, 358), (- 939, 342), (- 945, 325), (- 951, 309), (- 956, 292), (- 961, 275),
     (- 965, 258), (- 970, 241), (- 974, 224), (- 978, 207), (- 981, 190), (- 984, 173),
     (- 987, 156), (- 990, 139), (- 992, 121), (- 994, 104), (- 996, 87), (- 997, 69),
     (- 998, 52), (- 999, 34), (- 999, 17), (- 1000, 0), (- 999, - 17), (- 999, - 34),
     (- 998, - 52), (- 997, - 69), (- 996, - 87), (- 994, - 104), (- 992, - 121), (- 990, - 139),
     (- 987, - 156), (- 984, - 173), (- 981, - 190), (- 978, - 207), (- 974, - 224),
     (- 970, - 241), (- 965, - 258), (- 961, - 275), (- 956, - 292), (- 951, - 309),
     (- 945, - 325), (- 939, - 342), (- 933, - 358), (- 927, - 374), (- 920, - 390),
     (- 913, - 406), (- 906, - 422), (- 898, - 438), (- 891, - 453), (- 882, - 469),
     (- 874, - 484), (- 866, - 500), (- 857, - 515), (- 848, - 529), (- 838, - 544),
     (- 829, - 559), (- 819, - 573), (- 809, - 587), (- 798, - 601), (- 788, - 615),
     (- 777, - 629), (- 766, - 642), (- 754, - 656), (- 743, - 669), (- 731, - 681),
     (- 719, - 694), (- 707, - 707), (- 694, - 719), (- 681, - 731), (- 669, - 743),
     (- 656, - 754), (- 642, - 766), (- 629, - 777), (- 615, - 788), (- 601, - 798),
     (- 587, - 809), (- 573, - 819), (- 559, - 829), (- 544, - 838), (- 529, - 848),
     (- 515, - 857), (- 500, - 866), (- 484, - 874), (- 469, - 882), (- 453, - 891),
     (- 438, - 898), (- 422, - 906), (- 406, - 913), (- 390, - 920), (- 374, - 927),
     (- 358, - 933), (- 342, - 939), (- 325, - 945), (- 309, - 951), (- 292, - 956),
     (- 275, - 961), (- 258, - 965), (- 241, - 970), (- 224, - 974), (- 207, - 978),
     (- 190, - 981), (- 173, - 984), (- 156, - 987), (- 139, - 990), (- 121, - 992),
     (- 104, - 994), (- 87, - 996), (- 69, - 997), (- 52, - 998), (- 34, - 999), (- 17, - 999),
     (0, - 1000), (17, - 999), (34, - 999), (52, - 998), (69, - 997), (87, - 996), (104, - 994),
     (121, - 992), (139, - 990), (156, - 987), (173, - 984), (190, - 981), (207, - 978),
     (224, - 974), (241, - 970), (258, - 965), (275, - 961), (292, - 956), (309, - 951),
     (325, - 945), (342, - 939), (358, - 933), (374, - 927), (390, - 920), (406, - 913),
     (422, - 906), (438, - 898), (453, - 891), (469, - 882), (484, - 874), (500, - 866),
     (515, - 857), (529, - 848), (544, - 838), (559, - 829), (573, - 819), (587, - 809),
     (601, - 798), (615, - 788), (629, - 777), (642, - 766), (656, - 754), (669, - 743),
     (681, - 731), (694, - 719), (707, - 707), (719, - 694), (731, - 681), (743, - 669),
     (754, - 656), (766, - 642), (777, - 629), (788, - 615), (798, - 601), (809, - 587),
     (819, - 573), (829, - 559), (838, - 544), (848, - 529), (857, - 515), (866, - 500),
     (874, - 484), (882, - 469), (891, - 453), (898, - 438), (906, - 422), (913, - 406),
     (920, - 390), (927, - 374), (933, - 358), (939, - 342), (945, - 325), (951, - 309),
     (956, - 292), (961, - 275), (965, - 258), (970, - 241), (974, - 224), (978, - 207),
     (981, - 190), (984, - 173), (987, - 156), (990, - 139), (992, - 121), (994, - 104),
     (996, - 87), (997, - 69), (998, - 52), (999, - 34), (999, - 17)]"

definition table_sampler :: "(int \<times> int) list \<Rightarrow> int \<Rightarrow> (int \<times> int) option" where
  "table_sampler tbl i = (if 0 \<le> i \<and> i < int (length tbl) then Some (tbl ! nat i) else None)"

subsection \<open>Sizes of double values\<close>

text \<open>\<open>bounded B d\<close>: the value \<open>d\<close> is finite and at most \<open>B\<close> in magnitude.\<close>

definition bounded :: "rat \<Rightarrow> double \<Rightarrow> bool" where
  "bounded B d = (0 \<le> B \<and> (case d of Fin r \<Rightarrow> \<bar>r\<bar> \<le> B | NegZero \<Rightarrow> True | _ \<Rightarrow> False))"

section \<open>Properties of Line\<close>

lemma sint16_bounds: "- 32768 \<le> sint (x :: int16) \<and> sint x \<le> 32767"
  using sint_ge [of x] sint_lt [of x] by simp

lemma sint_succ16: "sint (x :: int16) < 32767 \<Longrightarrow> sint (x + 1) = sint x + 1"
proof -
  assume a: "sint x < 32767"
  have lo: "- 32768 \<le> sint x" using sint16_bounds [of x] by simp
  have "sint (x + 1) = signed_take_bit 15 (sint x + 1)"
    by (simp add: sint_word_ariths)
  also have "\<dots> = sint x + 1"
    using a lo by (simp add: signed_take_bit_int_eq_self)
  finally show ?thesis .
qed

lemma sint16_eqI: "sint (a :: int16) = sint b \<Longrightarrow> a = b"
  by (rule signed_word_eqI)

text \<open>
  The two swaps bring both argument orders to the same loop state. When the dominant
  coordinates are equal no swap happens, and then the two endpoints are equal.
\<close>

lemma line_order_sym: "line_order x1 y1 x0 y0 = line_order x0 y0 x1 y1"
proof -
  have abs_sym: "\<And>a b :: int. \<bar>a - b\<bar> = \<bar>b - a\<bar>" by simp
  show ?thesis
    unfolding line_order_def Let_def
    by (auto simp: abs_sym [of "sint y0" "sint y1"] abs_sym [of "sint x0" "sint x1"]
         dest!: sint16_eqI split: if_splits)
qed

text \<open>
  When the end of the loop is 32767 the test \<open>x0<=x1\<close> holds for every \<open>int16_t\<close> value
  of \<open>x0\<close>, and \<open>x0++\<close> wraps from 32767 to -32768: the loop never ends.
\<close>

lemma line_loop_diverges:
  assumes "sint x1 = 32767"
  shows "line_loop steep dx dy ystep color x1 x0 y0 err = None"
proof (cases "line_loop steep dx dy ystep color x1 x0 y0 err")
  case None
  then show ?thesis .
next
  case (Some ps)
  have "sint x1 \<noteq> 32767"
  proof (rule line_loop.raw_induct [where P = "\<lambda>_ _ _ _ _ x1 _ _ _ _. sint x1 \<noteq> 32767", OF _ Some])
    fix f :: "bool \<Rightarrow> int16 \<Rightarrow> int16 \<Rightarrow> int16 \<Rightarrow> color \<Rightarrow> int16 \<Rightarrow> int16 \<Rightarrow> int16 \<Rightarrow> int16 \<Rightarrow> pixel list option"
    fix steep dx dy ystep color x1 x0 y0 err and ps :: "pixel list"
    assume ih: "\<And>steep dx dy ystep color x1 x0 y0 err ps.
        f steep dx dy ystep color x1 x0 y0 err = Some ps \<Longrightarrow> sint x1 \<noteq> 32767"
    assume step: "(if sint x0 \<le> sint x1
      then let p = if steep then (sint y0, sint x0, color) else (sint x0, sint y0, color);
               err1 = err - dy
           in if sint err1 < 0
              then Option.bind (f steep dx dy ystep color x1 (x0 + 1) (y0 + ystep) (err1 + dx))
                    (\<lambda>ps. Some (p # ps))
              else Option.bind (f steep dx dy ystep color x1 (x0 + 1) y0 err1)
                    (\<lambda>ps. Some (p # ps))
      else Some []) = Some ps"
    show "sint x1 \<noteq> 32767"
    proof (cases "sint x0 \<le> sint x1")
      case True
      with step show ?thesis
        by (auto simp: Let_def split: if_splits Option.bind_splits dest: ih)
    next
      case False
      then show ?thesis using sint16_bounds [of x0] by simp
    qed
  qed
  with assms show ?thesis by simp
qed

text \<open>
  When the end of the loop is below 32767 the loop returns, and it issues one
  \<open>setPixel\<close> for each value of the dominant coordinate from \<open>x0\<close> to \<open>x1\<close>, in order.
\<close>

lemma line_loop_returns:
  assumes "sint x1 < 32767" and "sint x0 \<le> sint x1 + 1"
  shows "\<exists>ps. line_loop steep dx dy ystep color x1 x0 y0 err = Some ps \<and>
           map (dominant steep) ps = [sint x0 .. sint x1]"
  using assms(2)
proof (induction "nat (sint x1 + 1 - sint x0)" arbitrary: x0 y0 err)
  case 0
  then have "\<not> sint x0 \<le> sint x1" by simp
  then show ?case
    by (subst line_loop.simps) (simp add: upto.simps)
next
  case (Suc n)
  then have le: "sint x0 \<le> sint x1" by simp
  with assms(1) have nx: "sint (x0 + 1) = sint x0 + 1" by (simp add: sint_succ16)
  have n: "n = nat (sint x1 + 1 - sint (x0 + 1))" using Suc(2) nx by simp
  have b: "sint (x0 + 1) \<le> sint x1 + 1" using le nx by simp
  have up: "[sint x0 .. sint x1] = sint x0 # [sint x0 + 1 .. sint x1]"
    using le by (simp add: upto_rec1)
  show ?case
  proof (cases "sint (err - dy) < 0")
    case True
    from Suc(1) [OF n b, of "y0 + ystep" "err - dy + dx"] obtain ps where
      "line_loop steep dx dy ystep color x1 (x0 + 1) (y0 + ystep) (err - dy + dx) = Some ps"
      "map (dominant steep) ps = [sint (x0 + 1) .. sint x1]" by blast
    then show ?thesis using le True nx up
      by (subst line_loop.simps) (simp add: Let_def dominant_def)
  next
    case False
    from Suc(1) [OF n b, of y0 "err - dy"] obtain ps where
      "line_loop steep dx dy ystep color x1 (x0 + 1) y0 (err - dy) = Some ps"
      "map (dominant steep) ps = [sint (x0 + 1) .. sint x1]" by blast
    then show ?thesis using le False nx up
      by (subst line_loop.simps) (simp add: Let_def dominant_def)
  qed
qed

lemma line_order_span:
  assumes "line_order x0 y0 x1 y1 = (steep, a0, b0, a1, b1)"
  shows "steep = (\<bar>sint y1 - sint y0\<bar> > \<bar>sint x1 - sint x0\<bar>)"
    and "sint a0 \<le> sint a1"
    and "sint a1 - sint a0 = max \<bar>sint x1 - sint x0\<bar> \<bar>sint y1 - sint y0\<bar>"
    and "sint a1 = (if steep then max (sint y0) (sint y1) else max (sint x0) (sint x1))"
  using assms unfolding line_order_def Let_def
  by (auto split: if_splits)

text \<open>
  Away from the wrap-around, Line returns and plots one pixel for each value of the
  dominant coordinate: \<open>max(|x1-x0|, |y1-y0|) + 1\<close> pixels, their dominant coordinates
  consecutive.
\<close>

lemma line_returns:
  assumes "(if \<bar>sint y1 - sint y0\<bar> > \<bar>sint x1 - sint x0\<bar>
            then max (sint y0) (sint y1) else max (sint x0) (sint x1)) < 32767"
  shows "\<exists>ps. driver_framebuffer_line x0 y0 x1 y1 color = Some ps \<and>
           int (length ps) = max \<bar>sint x1 - sint x0\<bar> \<bar>sint y1 - sint y0\<bar> + 1 \<and>
           (\<exists>lo. map (dominant (\<bar>sint y1 - sint y0\<bar> > \<bar>sint x1 - sint x0\<bar>)) ps =
             [lo .. lo + max \<bar>sint x1 - sint x0\<bar> \<bar>sint y1 - sint y0\<bar>])"
proof -
  obtain steep a0 b0 a1 b1 where lo: "line_order x0 y0 x1 y1 = (steep, a0, b0, a1, b1)"
    by (metis prod_cases5)
  note sp = line_order_span [OF lo]
  have hi: "sint a1 < 32767" using assms sp(1,4) by simp
  have le: "sint a0 \<le> sint a1 + 1" using sp(2) by simp
  define dx where "dx = a1 - a0"
  define dy where "dy = (word_of_int \<bar>sint b1 - sint b0\<bar> :: int16)"
  define err where "err = (word_of_int (sint dx sdiv 2) :: int16)"
  define ystep where "ystep = (if sint b0 < sint b1 then 1 else - 1 :: int16)"
  from line_loop_returns [OF hi le, of steep dx dy ystep color b0 err]
  obtain ps where ps: "line_loop steep dx dy ystep color a1 a0 b0 err = Some ps"
    "map (dominant steep) ps = [sint a0 .. sint a1]" by blast
  have run: "driver_framebuffer_line x0 y0 x1 y1 color = Some ps"
    using ps(1) by (simp add: driver_framebuffer_line_def lo Let_def dx_def dy_def err_def ystep_def)
  have "length (map (dominant steep) ps) = nat (sint a1 - sint a0 + 1)"
    by (simp add: ps(2))
  then have len: "int (length ps) = sint a1 - sint a0 + 1" using sp(2) by simp
  have a1: "sint a1 = sint a0 + max \<bar>sint x1 - sint x0\<bar> \<bar>sint y1 - sint y0\<bar>"
    using sp(3) by simp
  show ?thesis
    using run len ps(2) sp(1,3) a1 by (intro exI [of _ ps]) (auto intro!: exI [of _ "sint a0"])
qed

text \<open>
  Claim C2. \<open>Line(x0,y0,x1,y1)\<close> and \<open>Line(x1,y1,x0,y0)\<close> issue the same sequence of
  \<open>setPixel\<close> calls, hence plot the same set of pixels, for all endpoints and colours
  (and one call returns exactly when the other does).
\<close>

theorem line_symmetric:
  "driver_framebuffer_line x0 y0 x1 y1 color = driver_framebuffer_line x1 y1 x0 y0 color"
  by (simp add: driver_framebuffer_line_def line_order_sym [of x1 y1 x0 y0])

text \<open>
  Claim C3. Line is claimed to plot exactly \<open>max(|x1-x0|, |y1-y0|) + 1\<close> pixels for every
  pair of endpoints. For the endpoints \<open>(0,0)\<close> and \<open>(32767,0)\<close> the call never returns:
  the loop counter wraps from 32767 to -32768 and the loop plots without end.
  (\<open>line_returns\<close> above shows the claimed count for every other kind of input.)
\<close>

theorem line_hangs_at_int16_max: "driver_framebuffer_line 0 0 32767 0 color = None"
  by (simp add: driver_framebuffer_line_def line_order_def line_loop_diverges)

subsection \<open>The bounding box of a line\<close>

text \<open>
  The error term of the loop stays in \<open>[0, dx)\<close>, so after \<open>k\<close> steps along the dominant
  axis the minor coordinate has moved at most \<open>dy\<close> steps.
\<close>

lemma sint_word_of_int16: "- 32768 \<le> k \<Longrightarrow> k \<le> 32767 \<Longrightarrow> sint (word_of_int k :: int16) = k"
  by (simp add: Word.signed_of_int signed_take_bit_int_eq_self)

lemma sint_add16: "- 32768 \<le> sint a + sint b \<Longrightarrow> sint a + sint b \<le> 32767 \<Longrightarrow> sint (a + b :: int16) = sint a + sint b"
  by (simp add: sint_word_ariths signed_take_bit_int_eq_self)

lemma sint_sub16: "- 32768 \<le> sint a - sint b \<Longrightarrow> sint a - sint b \<le> 32767 \<Longrightarrow> sint (a - b :: int16) = sint a - sint b"
  by (simp add: sint_word_ariths signed_take_bit_int_eq_self)

lemma bresenham_minor_bound:
  fixes n k DX DY E :: int
  assumes "E = DX div 2 - k * DY + n * DX" and "E < DX" and "0 \<le> k" and "k \<le> DX" and "0 \<le> DY"
    and DX: "0 < DX"
  shows "n \<le> DY"
proof -
  have "DX div 2 \<ge> 0" using DX by simp
  have "k * DY \<le> DX * DY" using assms by (intro mult_right_mono) auto
  have "n * DX = E - DX div 2 + k * DY" using assms(1) by simp
  also have "\<dots> < DX + DX * DY" using assms(2) \<open>DX div 2 \<ge> 0\<close> \<open>k * DY \<le> DX * DY\<close> by linarith
  also have "\<dots> = (1 + DY) * DX" by (simp add: algebra_simps)
  finally have "n < 1 + DY" using DX by (simp only: mult_less_cancel_right_pos)
  then show ?thesis by simp
qed

lemma line_loop_box:
  fixes DX DY :: int
  assumes dx: "sint dx = DX" and dy: "sint dy = DY" and DY: "0 \<le> DY" "DY \<le> DX" and DX: "DX \<le> 32000"
    and ys: "ystep = 1 \<or> ystep = - 1"
    and x1: "sint x1 \<le> 16000"
    and b0: "\<bar>sint b0\<bar> \<le> 16000" and b1: "\<bar>sint b0 + DY * sint ystep\<bar> \<le> 16000"
    and k: "sint x0 = sint x1 - DX + k" "0 \<le> k" "k \<le> DX + 1"
    and n: "sint y0 = sint b0 + n * sint ystep" "0 \<le> n" "DX = 0 \<longrightarrow> n = 0"
    and e: "sint err = DX div 2 - k * DY + n * DX" "0 \<le> sint err" "sint err < DX \<or> DX = 0"
  shows "\<exists>ps. line_loop steep dx dy ystep color x1 x0 y0 err = Some ps \<and>
           (\<forall>p \<in> set ps. \<exists>u m. p = (if steep then (sint b0 + m * sint ystep, u, color)
                                        else (u, sint b0 + m * sint ystep, color)) \<and>
               sint x1 - DX \<le> u \<and> u \<le> sint x1 \<and> 0 \<le> m \<and> m \<le> DY)"
  using k n e
proof (induction "nat (DX + 1 - k)" arbitrary: k n x0 y0 err)
  case 0
  then have "\<not> sint x0 \<le> sint x1" by simp
  then show ?case by (subst line_loop.simps) simp
next
  case (Suc j)
  have kle: "k \<le> DX" using Suc(2) by simp
  then have le: "sint x0 \<le> sint x1" using Suc.prems by simp
  have nx: "sint (x0 + 1) = sint x0 + 1" using le x1 by (simp add: sint_succ16)
  have ysi: "sint ystep = 1 \<or> sint ystep = - 1" using ys by auto
  have nDY: "n \<le> DY"
  proof (cases "DX = 0")
    case True
    then show ?thesis using Suc.prems(6) DY(1) by simp
  next
    case False
    with Suc.prems(9) have lt: "sint err < DX" by simp
    from False kle Suc.prems(2) have "0 < DX" by simp
    from bresenham_minor_bound [OF Suc.prems(7) lt Suc.prems(2) kle DY(1) this] show ?thesis .
  qed
  have E: "0 \<le> sint err" "sint err \<le> DX"
  proof -
    show "0 \<le> sint err" by (rule Suc.prems(8))
    show "sint err \<le> DX"
    proof (cases "DX = 0")
      case True
      with DY have "DY = 0" by simp
      with True Suc.prems(7) show ?thesis by simp
    next
      case False
      with Suc.prems(9) show ?thesis by simp
    qed
  qed
  have e1: "sint (err - dy) = sint err - DY"
    using E DY DX dy by (subst sint_sub16) simp_all
  have ybound: "\<bar>sint b0 + m * sint ystep\<bar> \<le> 16000" if "0 \<le> m" "m \<le> DY" for m
  proof -
    from ysi show ?thesis
    proof
      assume "sint ystep = 1"
      with b0 b1 that show ?thesis by simp
    next
      assume "sint ystep = - 1"
      with b0 b1 that show ?thesis by simp
    qed
  qed
  have pix: "\<exists>u m. (if steep then (sint y0, sint x0, color) else (sint x0, sint y0, color)) =
        (if steep then (sint b0 + m * sint ystep, u, color) else (u, sint b0 + m * sint ystep, color)) \<and>
        sint x1 - DX \<le> u \<and> u \<le> sint x1 \<and> 0 \<le> m \<and> m \<le> DY"
    using Suc.prems nDY le by (intro exI [of _ "sint x0"] exI [of _ n]) auto
  have jj: "j = nat (DX + 1 - (k + 1))" using Suc(2) by simp
  have k1: "sint (x0 + 1) = sint x1 - DX + (k + 1)" "0 \<le> k + 1" "k + 1 \<le> DX + 1"
    using nx Suc.prems kle by simp_all
  show ?case
  proof (cases "sint (err - dy) < 0")
    case True
    then have neg: "sint err - DY < 0" using e1 by simp
    then have DX0: "DX \<noteq> 0" using E DY by auto
    have y1: "sint (y0 + ystep) = sint b0 + (n + 1) * sint ystep"
    proof -
      have "\<bar>sint y0\<bar> \<le> 16000" using ybound [OF Suc.prems(5) nDY] Suc.prems(4) by simp
      then have "sint (y0 + ystep) = sint y0 + sint ystep"
        using ysi by (subst sint_add16) auto
      then show ?thesis using Suc.prems(4) by (simp add: algebra_simps)
    qed
    have e2: "sint (err - dy + dx) = sint err - DY + DX"
      using e1 dx E DY DX neg by (subst sint_add16) simp_all
    have e3: "sint (err - dy + dx) = DX div 2 - (k + 1) * DY + (n + 1) * DX"
      using e2 Suc.prems(7) by (simp add: algebra_simps)
    have e4: "0 \<le> sint (err - dy + dx)" "sint (err - dy + dx) < DX \<or> DX = 0"
      using e2 E DY neg by simp_all
    have n1: "0 \<le> n + 1" "DX = 0 \<longrightarrow> n + 1 = 0" using Suc.prems(5) DX0 by simp_all
    from Suc(1) [OF jj k1 y1 n1 e3 e4] obtain ps where
      ps: "line_loop steep dx dy ystep color x1 (x0 + 1) (y0 + ystep) (err - dy + dx) = Some ps"
        "\<forall>p \<in> set ps. \<exists>u m. p = (if steep then (sint b0 + m * sint ystep, u, color)
                                        else (u, sint b0 + m * sint ystep, color)) \<and>
               sint x1 - DX \<le> u \<and> u \<le> sint x1 \<and> 0 \<le> m \<and> m \<le> DY" by blast
    have "line_loop steep dx dy ystep color x1 x0 y0 err =
        Some ((if steep then (sint y0, sint x0, color) else (sint x0, sint y0, color)) # ps)"
      using le True ps(1) by (subst line_loop.simps) (simp add: Let_def)
    then show ?thesis using ps(2) pix by auto
  next
    case False
    then have pos: "0 \<le> sint err - DY" using e1 by simp
    have e3: "sint (err - dy) = DX div 2 - (k + 1) * DY + n * DX"
      using e1 Suc.prems(7) by (simp add: algebra_simps)
    have e4: "0 \<le> sint (err - dy)" "sint (err - dy) < DX \<or> DX = 0"
      using e1 pos Suc.prems(9) DY by auto
    from Suc(1) [OF jj k1 Suc.prems(4,5,6) e3 e4] obtain ps where
      ps: "line_loop steep dx dy ystep color x1 (x0 + 1) y0 (err - dy) = Some ps"
        "\<forall>p \<in> set ps. \<exists>u m. p = (if steep then (sint b0 + m * sint ystep, u, color)
                                        else (u, sint b0 + m * sint ystep, color)) \<and>
               sint x1 - DX \<le> u \<and> u \<le> sint x1 \<and> 0 \<le> m \<and> m \<le> DY" by blast
    have "line_loop steep dx dy ystep color x1 x0 y0 err =
        Some ((if steep then (sint y0, sint x0, color) else (sint x0, sint y0, color)) # ps)"
      using le False ps(1) by (subst line_loop.simps) (simp add: Let_def)
    then show ?thesis using ps(2) pix by auto
  qed
qed


lemma line_order_cases:
  assumes "line_order x0 y0 x1 y1 = (steep, a0, b0, a1, b1)"
  shows "sint a0 \<le> sint a1 \<and> \<bar>sint b1 - sint b0\<bar> \<le> sint a1 - sint a0 \<and>
     ((steep \<and> ((a0, b0, a1, b1) = (y0, x0, y1, x1) \<or> (a0, b0, a1, b1) = (y1, x1, y0, x0))) \<or>
      (\<not> steep \<and> ((a0, b0, a1, b1) = (x0, y0, x1, y1) \<or> (a0, b0, a1, b1) = (x1, y1, x0, y0))))"
  using assms unfolding line_order_def Let_def
  by (auto split: if_splits)

text \<open>
  For endpoints of moderate size nothing wraps: Line returns, and every pixel it plots lies
  in the bounding box of its two endpoints.
\<close>

lemma line_box:
  assumes "\<bar>sint x0\<bar> \<le> 16000" "\<bar>sint y0\<bar> \<le> 16000" "\<bar>sint x1\<bar> \<le> 16000" "\<bar>sint y1\<bar> \<le> 16000"
  shows "\<exists>ps. driver_framebuffer_line x0 y0 x1 y1 color = Some ps \<and>
     (\<forall>p \<in> set ps. \<exists>x y. p = (x, y, color) \<and>
        min (sint x0) (sint x1) \<le> x \<and> x \<le> max (sint x0) (sint x1) \<and>
        min (sint y0) (sint y1) \<le> y \<and> y \<le> max (sint y0) (sint y1))"
proof -
  obtain steep a0 b0 a1 b1 where lo: "line_order x0 y0 x1 y1 = (steep, a0, b0, a1, b1)"
    by (metis prod_cases5)
  note oc = line_order_cases [OF lo]
  define DX where "DX = sint a1 - sint a0"
  define DY where "DY = \<bar>sint b1 - sint b0\<bar>"
  define dx where "dx = a1 - a0"
  define dy where "dy = (word_of_int \<bar>sint b1 - sint b0\<bar> :: int16)"
  define err where "err = (word_of_int (sint dx sdiv 2) :: int16)"
  define ystep where "ystep = (if sint b0 < sint b1 then 1 else - 1 :: int16)"
  have ab: "\<bar>sint a0\<bar> \<le> 16000" "\<bar>sint a1\<bar> \<le> 16000" "\<bar>sint b0\<bar> \<le> 16000" "\<bar>sint b1\<bar> \<le> 16000"
    using oc assms by auto
  have DX: "0 \<le> DX" "DX \<le> 32000" using oc ab by (auto simp: DX_def)
  have DY: "0 \<le> DY" "DY \<le> DX" using oc by (auto simp: DX_def DY_def)
  have sdx: "sint dx = DX"
    unfolding dx_def DX_def using ab by (subst sint_sub16) auto
  have sdy: "sint dy = DY"
    unfolding dy_def DY_def using ab by (subst sint_word_of_int16) auto
  have "DX sdiv 2 = DX div 2" using DX by (simp add: signed_divide_int_def sgn_if)
  then have serr: "sint err = DX div 2"
    unfolding err_def sdx using DX by (subst sint_word_of_int16) auto
  have ys: "ystep = 1 \<or> ystep = - 1" by (simp add: ystep_def)
  have sys: "sint ystep = (if sint b0 < sint b1 then 1 else - 1)" by (simp add: ystep_def)
  have b1: "sint b0 + DY * sint ystep = sint b1" by (simp add: sys DY_def)
  have "\<exists>ps. line_loop steep dx dy ystep color a1 a0 b0 err = Some ps \<and>
           (\<forall>p \<in> set ps. \<exists>u m. p = (if steep then (sint b0 + m * sint ystep, u, color)
                                        else (u, sint b0 + m * sint ystep, color)) \<and>
               sint a1 - DX \<le> u \<and> u \<le> sint a1 \<and> 0 \<le> m \<and> m \<le> DY)"
  proof (rule line_loop_box [OF sdx sdy DY DX(2) ys, where k = 0 and n = 0])
    show "sint a1 \<le> 16000" using ab by simp
    show "\<bar>sint b0\<bar> \<le> 16000" by (rule ab)
    show "\<bar>sint b0 + DY * sint ystep\<bar> \<le> 16000" using b1 ab by simp
    show "sint a0 = sint a1 - DX + 0" by (simp add: DX_def)
    show "sint b0 = sint b0 + 0 * sint ystep" by simp
    show "sint err = DX div 2 - 0 * DY + 0 * DX" by (simp add: serr)
    show "0 \<le> sint err" using serr DX by simp
    show "sint err < DX \<or> DX = 0" using serr DX by auto
    show "0 \<le> DX + 1" using DX by simp
  qed simp_all
  then obtain ps where ps: "line_loop steep dx dy ystep color a1 a0 b0 err = Some ps"
    and box: "\<And>p. p \<in> set ps \<Longrightarrow> \<exists>u m. p = (if steep then (sint b0 + m * sint ystep, u, color)
                                        else (u, sint b0 + m * sint ystep, color)) \<and>
               sint a1 - DX \<le> u \<and> u \<le> sint a1 \<and> 0 \<le> m \<and> m \<le> DY"
    by blast
  have run: "driver_framebuffer_line x0 y0 x1 y1 color = Some ps"
    using ps by (simp add: driver_framebuffer_line_def lo Let_def dx_def dy_def err_def ystep_def)
  have minor: "min (sint b0) (sint b1) \<le> sint b0 + m * sint ystep \<and>
      sint b0 + m * sint ystep \<le> max (sint b0) (sint b1)" if "0 \<le> m" "m \<le> DY" for m
    using that by (auto simp: sys DY_def)
  have "\<exists>x y. p = (x, y, color) \<and>
        min (sint x0) (sint x1) \<le> x \<and> x \<le> max (sint x0) (sint x1) \<and>
        min (sint y0) (sint y1) \<le> y \<and> y \<le> max (sint y0) (sint y1)" if "p \<in> set ps" for p
  proof -
    from box [OF that] obtain u m where
      p: "p = (if steep then (sint b0 + m * sint ystep, u, color) else (u, sint b0 + m * sint ystep, color))"
      and u: "sint a0 \<le> u" "u \<le> sint a1" and m: "0 \<le> m" "m \<le> DY"
      by (auto simp: DX_def)
    note mm = minor [OF m]
    from oc consider
      (s1) "steep" "a0 = y0" "b0 = x0" "a1 = y1" "b1 = x1" |
      (s2) "steep" "a0 = y1" "b0 = x1" "a1 = y0" "b1 = x0" |
      (n1) "\<not> steep" "a0 = x0" "b0 = y0" "a1 = x1" "b1 = y1" |
      (n2) "\<not> steep" "a0 = x1" "b0 = y1" "a1 = x0" "b1 = y0"
      by auto
    then show ?thesis
    proof cases
      case s1
      with p u mm show ?thesis by auto
    next
      case s2
      with p u mm show ?thesis by auto
    next
      case n1
      with p u mm show ?thesis by auto
    next
      case n2
      with p u mm show ?thesis by auto
    qed
  qed
  with run show ?thesis by blast
qed

section \<open>Properties of Rectangle\<close>

text \<open>
  Claim C8, as stated, fails. In outline mode with width 0 and height 0 the four calls of
  Line still plot eight pixels, and in fill mode with width 1 and height 0 the column
  from \<open>y\<close> to \<open>y-1\<close> is a line of two pixels.
\<close>

theorem rect_zero_size_plots:
  "driver_framebuffer_rect 0 0 0 0 False 1 =
     Some [(- 1, 0, 1), (0, 0, 1), (- 1, - 1, 1), (0, - 1, 1),
           (0, - 1, 1), (0, 0, 1), (- 1, - 1, 1), (- 1, 0, 1)]
   \<and> driver_framebuffer_rect 0 0 1 0 True 1 = Some [(0, - 1, 1), (0, 0, 1)]"
  by code_simp

text \<open>
  Claim C8, amended. In fill mode with width 0 the loop over the columns runs zero times:
  Rectangle returns and plots no pixel, for every corner, height and colour.
\<close>

theorem rect_fill_width_zero: "driver_framebuffer_rect x y 0 h True color = Some []"
  by (simp add: driver_framebuffer_rect_def rect_fill_loop.simps)

section \<open>Evaluating the floating-point model\<close>

text \<open>
  Rules that let the simplifier compute the model on numerals: floors and ceilings of
  rational numerals, bit lengths, and the definitions of the arithmetic. The congruence
  rules make it evaluate an argument before it looks into the function applied to it.
\<close>

lemma floor_rat_numeral_div: "\<lfloor>numeral a / numeral b :: rat\<rfloor> = numeral a div numeral b"
  by (metis floor_divide_of_int_eq of_int_numeral)

lemma floor_rat_neg_numeral_div: "\<lfloor>- (numeral a / numeral b) :: rat\<rfloor> = - numeral a div numeral b"
  by (metis divide_minus_left floor_divide_of_int_eq of_int_neg_numeral of_int_numeral)

lemma ceiling_rat_numeral_div: "\<lceil>numeral a / numeral b :: rat\<rceil> = - (- numeral a div numeral b)"
  unfolding ceiling_def by (simp add: floor_rat_neg_numeral_div)

lemma ceiling_rat_neg_numeral_div: "\<lceil>- (numeral a / numeral b) :: rat\<rceil> = - (numeral a div numeral b)"
  unfolding ceiling_def by (simp add: floor_rat_numeral_div)

lemma floor_rat_one_div: "\<lfloor>1 / numeral b :: rat\<rfloor> = 1 div numeral b"
  by (metis floor_divide_of_int_eq of_int_1 of_int_numeral)

lemma floor_rat_neg_one_div: "\<lfloor>- (1 / numeral b) :: rat\<rfloor> = - 1 div numeral b"
  by (metis divide_minus_left floor_divide_of_int_eq of_int_minus of_int_1 of_int_numeral)

lemma ceiling_rat_one_div: "\<lceil>1 / numeral b :: rat\<rceil> = - (- 1 div numeral b)"
  unfolding ceiling_def by (simp add: floor_rat_neg_one_div)

lemma ceiling_rat_neg_one_div: "\<lceil>- (1 / numeral b) :: rat\<rceil> = - (1 div numeral b)"
  unfolding ceiling_def by (simp add: floor_rat_one_div)

lemma bitlen_numeral: "bitlen (numeral n) = bitlen (numeral n div 2) + 1"
  by (subst compute_bitlen) simp

lemma bitlen_one: "bitlen 1 = 1"
  by (subst compute_bitlen) simp

lemmas fp_eval = fp_round_def round_double_def to_float_def ilog2_def round_half_even_def
  bitlen_numeral bitlen_one floor_rat_numeral_div floor_rat_neg_numeral_div
  ceiling_rat_numeral_div ceiling_rat_neg_numeral_div floor_rat_one_div floor_rat_neg_one_div
  ceiling_rat_one_div ceiling_rat_neg_one_div
  is_zero_def is_inf_def is_finite_def signbit_def dval_def dneg_def dadd_def dsub_def dmul_def
  ddiv_def dlt_def deq_def dle_def int_range_def to_int_def double_of_int_def
  c_0_9999_def c_0_5_def c_0_01_def Let_def

text \<open>The rows of the body are the rows of its two parts, upper part first.\<close>

lemma triangle_body_scan: "map_option fst (triangle_body v color) = triangle_scan v color"
proof -
  obtain x0 y0 x1 y1 x2 y2 where v: "v = (x0, y0, x1, y1, x2, y2)"
    by (metis prod_cases6)
  show ?thesis
    unfolding v triangle_body_def triangle_scan_def triangle_top_def triangle_bottom_def
      xMiddle_of_def divide_def
    by (simp add: Let_def split: Option.bind_split)
qed

lemma triangle_rows_scan:
  "triangle_rows x0 y0 x1 y1 x2 y2 color = triangle_scan (triangle_sort (x0, y0, x1, y1, x2, y2)) color"
  by (simp add: triangle_rows_def triangle_run_def triangle_body_scan)

lemmas tri_eval = upto.simps triangle_sort_def swap01_def swap02_def swap12_def triangle_rows_scan
  triangle_scan_def triangle_top_def triangle_bottom_def xMiddle_of_def scan_rows_def scan_row_def
  row_coord_def scan_span_def driver_framebuffer_triangle_def

lemma bind_weak_cong: "x = y \<Longrightarrow> Option.bind x f = Option.bind y f"
  by simp

lemmas eval_cong = bind_weak_cong let_weak_cong prod.case_cong_weak

lemma c_0_9999_val: "c_0_9999 = Fin (4503149267407759 / 4503599627370496)"
  by (simp add: fp_eval cong: eval_cong)

section \<open>Properties of Triangle\<close>

subsection \<open>The span of a row\<close>

lemma those_map_Some:
  "those (map f xs) = Some ys \<Longrightarrow> y \<in> set ys \<Longrightarrow> \<exists>x \<in> set xs. f x = Some y"
proof (induction xs arbitrary: ys)
  case Nil
  then show ?case by simp
next
  case (Cons a xs)
  then show ?case by (auto split: option.splits)
qed

text \<open>
  The inner loop starts at \<open>xC0\<close> and takes \<open>|xC0 - xC1|\<close> steps towards \<open>xC1\<close>: it plots
  \<open>xC0\<close> and stops one column short of \<open>xC1\<close>.
\<close>

lemma scan_span_set:
  assumes "scan_span xC0 xC1 y color = Some ps"
  shows "set ps = {(x, y, color) | x. (xC0 \<le> x \<and> x < xC1) \<or> (xC1 < x \<and> x \<le> xC0)}"
proof -
  have ps: "ps = map (\<lambda>j. (xC0 + j * (if xC0 - xC1 < 0 then 1 else - 1), y, color))
                   [0 .. (if xC0 - xC1 < 0 then - (xC0 - xC1) else xC0 - xC1) - 1]"
    using assms by (simp add: scan_span_def Let_def split: if_splits)
  show ?thesis
  proof (cases "xC0 - xC1 < 0")
    case True
    have "set ps = (\<lambda>j. (xC0 + j, y, color)) ` {0 .. xC1 - xC0 - 1}"
      using True by (simp add: ps)
    also have "\<dots> = {(x, y, color) | x. xC0 \<le> x \<and> x < xC1}"
    proof (safe, goal_cases)
      case (1 _ _ _ j) then show ?case by auto
    next
      case (2 _ _ _ x)
      then have "x - xC0 \<in> {0 .. xC1 - xC0 - 1}" by simp
      then show ?case by (metis (mono_tags, lifting) add_diff_cancel_left' diff_add_cancel image_iff)
    qed
    finally show ?thesis using True by auto
  next
    case False
    have "set ps = (\<lambda>j. (xC0 - j, y, color)) ` {0 .. xC0 - xC1 - 1}"
      using False by (simp add: ps)
    also have "\<dots> = {(x, y, color) | x. xC1 < x \<and> x \<le> xC0}"
    proof (safe, goal_cases)
      case (1 _ _ _ j) then show ?case by auto
    next
      case (2 _ _ _ x)
      then have "xC0 - x \<in> {0 .. xC0 - xC1 - 1}" by simp
      moreover have "x = xC0 - (xC0 - x)" by simp
      ultimately show ?case by (metis (mono_tags, lifting) image_iff)
    qed
    finally show ?thesis using False by auto
  qed
qed

lemma scan_rows_row:
  assumes "scan_rows n ys yStep xs0 xStep0 xs1 xStep1 color = Some rows"
    and "((y, xC0, xC1), ps) \<in> set rows"
  shows "scan_span xC0 xC1 y color = Some ps"
proof -
  from those_map_Some [OF assms(1) [unfolded scan_rows_def] assms(2)]
  obtain i where "scan_row ys yStep xs0 xStep0 xs1 xStep1 color i = Some ((y, xC0, xC1), ps)"
    by blast
  then show ?thesis
    by (auto simp: scan_row_def split: Option.bind_splits)
qed

lemma triangle_scan_row:
  assumes "triangle_scan v color = Some rows" and "((y, xC0, xC1), ps) \<in> set rows"
  shows "scan_span xC0 xC1 y color = Some ps"
proof -
  obtain x0 y0 x1 y1 x2 y2 where v: "v = (x0, y0, x1, y1, x2, y2)"
    by (metis prod_cases6)
  from assms(1) obtain top bottom where tb: "triangle_top v color = Some top"
      "triangle_bottom v color = Some bottom" "rows = top @ bottom"
    by (auto simp: triangle_scan_def split: Option.bind_splits)
  from assms(2) tb(3) consider "((y, xC0, xC1), ps) \<in> set top" | "((y, xC0, xC1), ps) \<in> set bottom"
    by auto
  then show ?thesis
  proof cases
    case 1
    from tb(1) obtain n a b c d e f where "scan_rows n a b c d e f color = Some top"
      by (auto simp: triangle_top_def v Let_def split: Option.bind_splits)
    from scan_rows_row [OF this 1] show ?thesis .
  next
    case 2
    from tb(2) obtain n a b c d e f where "scan_rows n a b c d e f color = Some bottom"
      by (auto simp: triangle_bottom_def v Let_def split: Option.bind_splits)
    from scan_rows_row [OF this 2] show ?thesis .
  qed
qed

text \<open>
  Claim C1, as stated, fails. The rows of the triangle \<open>(0,0), (4,2), (0,4)\<close>, each with its
  \<open>y\<close>, \<open>xC0\<close> and \<open>xC1\<close>: the first row has \<open>xC0 = xC1 = 0\<close> and plots nothing, and the
  rows with \<open>xC1 = 2\<close> and \<open>xC1 = 4\<close> do not plot column \<open>xC1\<close>.
\<close>

theorem triangle_rows_leave_out_xC1:
  "triangle_rows (Fin 0) (Fin 0) (Fin 4) (Fin 2) (Fin 0) (Fin 4) 1 =
     Some [((0, 0, 0), []),
           ((1, 0, 2), [(0, 1, 1), (1, 1, 1)]),
           ((2, 0, 4), [(0, 2, 1), (1, 2, 1), (2, 2, 1), (3, 2, 1)]),
           ((3, 0, 2), [(0, 3, 1), (1, 3, 1)])]"
  by (simp add: tri_eval fp_eval cong: eval_cong)

text \<open>
  Claim C1, amended. For every scan row of the upper and of the lower part, the span plotted
  is half-open: it contains \<open>xC0\<close> and the columns from \<open>xC0\<close> towards \<open>xC1\<close>, whichever
  of the two is smaller, and it does not contain \<open>xC1\<close>. A row whose two boundary columns
  coincide plots no pixel.
\<close>

theorem triangle_row_span:
  assumes "triangle_rows x0 y0 x1 y1 x2 y2 color = Some rows"
    and "((y, xC0, xC1), ps) \<in> set rows"
  shows "set ps = {(x, y, color) | x. (xC0 \<le> x \<and> x < xC1) \<or> (xC1 < x \<and> x \<le> xC0)}"
  using assms by (auto simp only: triangle_rows_scan dest!: triangle_scan_row scan_span_set)

theorem triangle_row_span_witness:
  "triangle_rows (Fin 0) (Fin 0) (Fin 4) (Fin 2) (Fin 0) (Fin 4) 1 =
     Some [((0, 0, 0), []),
           ((1, 0, 2), [(0, 1, 1), (1, 1, 1)]),
           ((2, 0, 4), [(0, 2, 1), (1, 2, 1), (2, 2, 1), (3, 2, 1)]),
           ((3, 0, 2), [(0, 3, 1), (1, 3, 1)])]
   \<and> set [(0, 1, 1), (1, 1, 1)] =
       ({(x, 1, 1) | x. (0 \<le> x \<and> x < 2) \<or> (2 < x \<and> x \<le> 0)} :: pixel set)"
proof -
  have rows: "triangle_rows (Fin 0) (Fin 0) (Fin 4) (Fin 2) (Fin 0) (Fin 4) 1 =
     Some [((0, 0, 0), []),
           ((1, 0, 2), [(0, 1, 1), (1, 1, 1)]),
           ((2, 0, 4), [(0, 2, 1), (1, 2, 1), (2, 2, 1), (3, 2, 1)]),
           ((3, 0, 2), [(0, 3, 1), (1, 3, 1)])]"
    by (simp add: tri_eval fp_eval cong: eval_cong)
  have "((1, 0, 2), [(0, 1, 1), (1, 1, 1)]) \<in> set [((0 :: int, 0 :: int, 0 :: int), [] :: pixel list),
           ((1, 0, 2), [(0, 1, 1), (1, 1, 1)]),
           ((2, 0, 4), [(0, 2, 1), (1, 2, 1), (2, 2, 1), (3, 2, 1)]),
           ((3, 0, 2), [(0, 3, 1), (1, 3, 1)])]"
    by simp
  from rows triangle_row_span [OF rows this]
  show ?thesis by (rule conjI)
qed

subsection \<open>The order of the vertices\<close>

text \<open>
  Claim C4. The four passes are claimed to leave \<open>y0 \<le> y1 \<le> y2\<close> for all inputs. The
  source swaps through \<open>float temp\<close>. For the vertices with \<open>y = 1 + 2^-29\<close>, \<open>5\<close> and
  \<open>1 + 2^-30\<close> (all three are doubles) the second pass moves \<open>1 + 2^-30\<close> to the middle,
  and the last pass swaps it with \<open>1 + 2^-29\<close>, which is rounded to the float \<open>1\<close> on
  the way: the result has \<open>y0 = 1 + 2^-30 > y1 = 1\<close>.
\<close>

theorem triangle_sort_float_temp_unordered:
  "triangle_sort (Fin 0, Fin (536870913 / 536870912), Fin 0, Fin 5, Fin 0, Fin (1073741825 / 1073741824))
     = (Fin 0, Fin (1073741825 / 1073741824), Fin 0, Fin 1, Fin 0, Fin 5)
   \<and> \<not> dle (Fin (1073741825 / 1073741824)) (Fin 1)
   \<and> round_double (536870913 / 536870912) = Fin (536870913 / 536870912)
   \<and> round_double (1073741825 / 1073741824) = Fin (1073741825 / 1073741824)"
  by (simp add: tri_eval fp_eval cong: eval_cong)

subsection \<open>Scans that are defined\<close>

text \<open>
  Rounding moves a value by at most half a unit in the last place, so the results of the
  arithmetic stay finite and of moderate size when the operands are.
\<close>

lemma ilog2_le: "2 powi (ilog2 x) \<le> x" if "0 < x"
proof (cases "1 \<le> x")
  case True
  define n where "n = \<lfloor>x\<rfloor>"
  have n: "0 < n" using True by (simp add: n_def)
  from bitlen_bounds [OF n] have "2 ^ nat (bitlen n - 1) \<le> n" by simp
  then have "(of_int (2 ^ nat (bitlen n - 1)) :: rat) \<le> of_int n"
    by (simp only: of_int_le_iff)
  also have "\<dots> \<le> x" by (simp add: n_def)
  finally have "(2 :: rat) ^ nat (bitlen n - 1) \<le> x" by simp
  moreover have "0 \<le> bitlen n - 1" using n bitlen_bounds [OF n] 
    by (smt (verit) bitlen_nonneg bitlen_zero nat_0_iff power_0 zero_less_one bitlen_def floorlog_def nat_zero_as_int)
  ultimately show ?thesis
    using True by (simp add: ilog2_def n_def power_int_nonneg_exp)
next
  case False
  define c where "c = \<lceil>1 / x\<rceil>"
  have "1 < 1 / x" using False that by simp
  then have c: "0 < c - 1" unfolding c_def by (smt (verit) ceiling_less_cancel ceiling_one less_ceiling_iff of_int_1)
  from bitlen_bounds [OF c] have "c - 1 < 2 ^ nat (bitlen (c - 1))" by simp
  then have "c \<le> 2 ^ nat (bitlen (c - 1))" by simp
  then have "(of_int c :: rat) \<le> of_int (2 ^ nat (bitlen (c - 1)))"
    by (simp only: of_int_le_iff)
  then have A: "(of_int c :: rat) \<le> 2 ^ nat (bitlen (c - 1))" by simp
  have B: "1 / x \<le> of_int c" by (simp add: c_def)
  from B A have "1 / x \<le> 2 ^ nat (bitlen (c - 1))" by (rule order_trans)
  then have "1 / 2 ^ nat (bitlen (c - 1)) \<le> x"
    using that by (simp add: field_simps)
  moreover have "(2 :: rat) powi (- bitlen (c - 1)) = 1 / 2 ^ nat (bitlen (c - 1))"
    using bitlen_nonneg [of "c - 1"] by (simp add: power_int_minus power_int_nonneg_exp field_simps)
  ultimately show ?thesis
    using False by (simp add: ilog2_def c_def)
qed

lemma round_half_even_near: "\<bar>of_int (round_half_even q) - q\<bar> \<le> 1 / 2"
proof -
  have lo: "of_int \<lfloor>q\<rfloor> \<le> q" and hi: "q < of_int \<lfloor>q\<rfloor> + 1"
    by linarith+
  show ?thesis
    using lo hi unfolding round_half_even_def Let_def
    by (auto simp: abs_le_iff)
qed

lemma bounded_mono: "bounded A d \<Longrightarrow> A \<le> B \<Longrightarrow> bounded B d"
  by (auto simp: bounded_def split: double.splits)

lemma fp_round_bounded:
  assumes x: "\<bar>x\<bar> \<le> B" and big: "2 * B + 1 < 2 powi (emax + 1)"
    and p: "1 \<le> p" and emin: "emin \<le> int p - 1"
  shows "bounded (2 * B + 1) (fp_round p emin emax x)"
proof (cases "x = 0")
  case True
  with x show ?thesis by (simp add: fp_round_def bounded_def)
next
  case False
  define a where "a = \<bar>x\<bar>"
  define e where "e = max (ilog2 a) emin"
  define ulp :: rat where "ulp = 2 powi (e - int p + 1)"
  define m where "m = round_half_even (a / ulp)"
  define v where "v = of_int m * ulp"
  have a: "0 < a" using False by (simp add: a_def)
  have ulp: "0 < ulp" by (simp add: ulp_def)
  have "ulp \<le> max a 1"
  proof (cases "emin \<le> ilog2 a")
    case True
    then have "e = ilog2 a" by (simp add: e_def)
    then have "ulp \<le> 2 powi (ilog2 a)"
      unfolding ulp_def using p by (intro power_int_increasing) auto
    also have "\<dots> \<le> a" using a by (rule ilog2_le)
    finally show ?thesis by simp
  next
    case False
    then have "e = emin" by (simp add: e_def)
    then have "ulp \<le> 2 powi 0"
      unfolding ulp_def using emin by (intro power_int_increasing) auto
    then show ?thesis by simp
  qed
  then have u1: "ulp \<le> a + 1" using a by (simp add: max_def split: if_splits)
  have near: "\<bar>of_int m - a / ulp\<bar> \<le> 1 / 2"
    unfolding m_def by (rule round_half_even_near)
  have "of_int m - a / ulp \<le> 1 / 2" and "a / ulp - of_int m \<le> 1 / 2"
    using abs_le_D1 [OF near] abs_le_D2 [OF near] by (simp_all only: minus_diff_eq)
  then have "(of_int m - a / ulp) * ulp \<le> 1 / 2 * ulp" and "(a / ulp - of_int m) * ulp \<le> 1 / 2 * ulp"
    using ulp by (simp_all only: mult_le_cancel_right_pos)
  moreover have "(of_int m - a / ulp) * ulp = v - a" and "(a / ulp - of_int m) * ulp = a - v"
    using ulp by (simp_all add: v_def left_diff_distrib)
  ultimately have "v - a \<le> ulp / 2" and "a - v \<le> ulp / 2" by simp_all
  with u1 a have "v \<le> 2 * a + 1" and "- v \<le> 2 * a + 1" by linarith+
  then have v: "\<bar>v\<bar> \<le> 2 * a + 1" by (simp add: abs_le_iff)
  with x have vB: "\<bar>v\<bar> \<le> 2 * B + 1" by (simp add: a_def)
  with big have nov: "\<not> 2 powi (emax + 1) \<le> v" by (simp add: abs_le_iff)
  have B0: "0 \<le> 2 * B + 1" using x by simp
  have "fp_round p emin emax x =
      (if v = 0 then (if 0 < x then Fin 0 else NegZero) else Fin (if 0 < x then v else - v))"
    using False nov by (simp add: fp_round_def Let_def a_def e_def ulp_def m_def v_def)
  then show ?thesis using vB B0 by (auto simp: bounded_def)
qed

lemma round_double_bounded:
  assumes "\<bar>x\<bar> \<le> B" and "B \<le> 1000000000000"
  shows "bounded (2 * B + 1) (round_double x)"
proof -
  have "2 * B + 1 \<le> 2000000000001" using assms(2) by simp
  also have "\<dots> < (2 :: rat) powi (1023 + 1)" by simp
  finally show ?thesis
    unfolding round_double_def using assms(1) by (intro fp_round_bounded) auto
qed


lemma dadd_bounded:
  assumes "bounded A a" and "bounded B b" and "A + B \<le> 1000000000000"
  shows "bounded (2 * (A + B) + 1) (dadd a b)"
proof -
  have A: "0 \<le> A" and B: "0 \<le> B" using assms by (simp_all add: bounded_def)
  have mono: "bounded C d \<Longrightarrow> C \<le> A + B \<Longrightarrow> bounded (2 * (A + B) + 1) d" for C d
    using A B by (auto intro: bounded_mono)
  show ?thesis
  proof (cases "\<exists>r s. a = Fin r \<and> b = Fin s")
    case True
    then obtain r s where ab: "a = Fin r" "b = Fin s" by blast
    then have "\<bar>r\<bar> \<le> A" "\<bar>s\<bar> \<le> B" using assms(1,2) by (simp_all add: bounded_def)
    with abs_triangle_ineq [of r s] have "\<bar>r + s\<bar> \<le> A + B" by linarith
    from round_double_bounded [OF this assms(3)] A B show ?thesis
      by (simp add: ab dadd_def is_inf_def dval_def bounded_def)
  next
    case False
    with assms(1,2) A B show ?thesis
      by (cases a; cases b) (auto simp: dadd_def is_inf_def bounded_def)
  qed
qed

lemma dmul_bounded:
  assumes "bounded A a" and "bounded B b" and "A * B \<le> 1000000000000"
  shows "bounded (2 * (A * B) + 1) (dmul a b)"
proof -
  have A: "0 \<le> A" and B: "0 \<le> B" using assms by (simp_all add: bounded_def)
  then have AB: "0 \<le> A * B" by simp
  show ?thesis
  proof (cases "\<exists>r s. a = Fin r \<and> b = Fin s \<and> r \<noteq> 0 \<and> s \<noteq> 0")
    case True
    then obtain r s where ab: "a = Fin r" "b = Fin s" "r \<noteq> 0" "s \<noteq> 0" by blast
    then have "\<bar>r\<bar> \<le> A" "\<bar>s\<bar> \<le> B" using assms(1,2) by (simp_all add: bounded_def)
    then have "\<bar>r * s\<bar> \<le> A * B" by (simp add: abs_mult mult_mono)
    from round_double_bounded [OF this assms(3)] show ?thesis
      by (simp add: ab dmul_def is_inf_def is_zero_def dval_def)
  next
    case False
    with assms(1,2) AB show ?thesis
      by (cases a; cases b) (auto simp: dmul_def is_inf_def is_zero_def signbit_def bounded_def)
  qed
qed

lemma to_int_bounded:
  assumes "bounded B d" and "B \<le> 2147483647"
  shows "\<exists>t. to_int d = Some t \<and> \<bar>of_int t\<bar> \<le> B"
proof (cases d)
  case (Fin r)
  define t where "t = (if 0 \<le> r then \<lfloor>r\<rfloor> else \<lceil>r\<rceil>)"
  have rB: "\<bar>r\<bar> \<le> B" using assms(1) Fin by (simp add: bounded_def)
  have tr: "\<bar>of_int t :: rat\<bar> \<le> \<bar>r\<bar>"
  proof (cases "0 \<le> r")
    case True
    then have "0 \<le> \<lfloor>r\<rfloor>" by simp
    moreover have "of_int \<lfloor>r\<rfloor> \<le> r" by simp
    ultimately show ?thesis using True by (simp add: t_def)
  next
    case False
    then have "\<lceil>r\<rceil> \<le> 0" by (simp add: ceiling_le_iff)
    then have "\<bar>of_int \<lceil>r\<rceil> :: rat\<bar> = - of_int \<lceil>r\<rceil>" by simp
    moreover have "r \<le> of_int \<lceil>r\<rceil>" by simp
    ultimately show ?thesis using False by (simp add: t_def)
  qed
  with rB have tB: "\<bar>of_int t :: rat\<bar> \<le> B" by simp
  with assms(2) have "\<bar>of_int t :: rat\<bar> \<le> of_int 2147483647" by simp
  then have "\<bar>t\<bar> \<le> 2147483647"
    by (simp only: of_int_abs [symmetric] of_int_le_iff)
  then have "- 2147483647 \<le> t" "t \<le> 2147483647" by (simp_all add: abs_le_iff)
  then have "int_range t" by (simp add: int_range_def)
  then show ?thesis using tB by (simp add: to_int_def Fin t_def Let_def)
next
  case NegZero
  with assms(1) show ?thesis by (simp add: to_int_def bounded_def)
qed (use assms(1) in \<open>simp_all add: bounded_def\<close>)

lemma c_0_5_val: "c_0_5 = Fin (1 / 2)"
  by (simp add: fp_eval cong: eval_cong)

lemma row_coord_defined:
  assumes "bounded S start" and "bounded T step" and "0 \<le> i" and "i \<le> N"
    and "S \<le> 10000" and "T \<le> 10000" and "N \<le> 10000"
  shows "\<exists>t. row_coord start step i = Some t \<and> \<bar>t\<bar> \<le> 1000000000"
proof -
  have S: "0 \<le> S" and T: "0 \<le> T" using assms by (simp_all add: bounded_def)
  have i: "bounded (of_int N) (double_of_int i)"
    using assms(3,4) by (simp add: bounded_def double_of_int_def)
  have N: "(of_int N :: rat) \<le> 10000" "(0 :: rat) \<le> of_int N" using assms(3,4,7) by simp_all
  have TN: "T * of_int N \<le> 10000 * 10000"
    using T N assms(6) by (intro mult_mono) auto
  then have m: "bounded (2 * (T * of_int N) + 1) (dmul step (double_of_int i))"
    by (intro dmul_bounded [OF assms(2) i]) simp
  have "bounded (2 * (S + (2 * (T * of_int N) + 1)) + 1) (dadd start (dmul step (double_of_int i)))"
    using TN assms(5) by (intro dadd_bounded [OF assms(1) m]) simp
  moreover have "bounded (1 / 2) c_0_5" by (simp add: c_0_5_val bounded_def)
  ultimately have "bounded (2 * ((2 * (S + (2 * (T * of_int N) + 1)) + 1) + 1 / 2) + 1)
      (dadd (dadd start (dmul step (double_of_int i))) c_0_5)"
  proof (rule dadd_bounded)
    show "2 * (S + (2 * (T * of_int N) + 1)) + 1 + 1 / 2 \<le> 1000000000000"
      using TN assms(5) by simp
  qed
  moreover have "2 * ((2 * (S + (2 * (T * of_int N) + 1)) + 1) + 1 / 2) + 1 \<le> 1000000000"
    using TN assms(5) by simp
  ultimately have "bounded 1000000000 (dadd (dadd start (dmul step (double_of_int i))) c_0_5)"
    by (rule bounded_mono)
  from to_int_bounded [OF this] obtain t where
    "row_coord start step i = Some t" "\<bar>of_int t :: rat\<bar> \<le> 1000000000"
    by (auto simp: row_coord_def)
  moreover from this(2) have "\<bar>t\<bar> \<le> 1000000000"
    by (metis of_int_abs of_int_le_iff of_int_numeral)
  ultimately show ?thesis by blast
qed

lemma scan_span_defined:
  assumes "\<bar>xC0\<bar> \<le> 1000000000" and "\<bar>xC1\<bar> \<le> 1000000000"
  shows "scan_span xC0 xC1 y color \<noteq> None"
proof -
  from assms have "- 1000000000 \<le> xC0" "xC0 \<le> 1000000000" "- 1000000000 \<le> xC1" "xC1 \<le> 1000000000"
    by (simp_all add: abs_le_iff)
  then show ?thesis
    by (simp add: scan_span_def int_range_def Let_def)
qed

lemma scan_row_defined:
  assumes "bounded S ys" "bounded T yStep" "bounded S xs0" "bounded T xStep0"
    "bounded S xs1" "bounded T xStep1"
    and "0 \<le> i" and "i \<le> N" and "S \<le> 10000" and "T \<le> 10000" and "N \<le> 10000"
  shows "scan_row ys yStep xs0 xStep0 xs1 xStep1 color i \<noteq> None"
proof -
  from row_coord_defined [OF assms(1,2,7,8,9,10,11)] obtain y where
    y: "row_coord ys yStep i = Some y" by blast
  from row_coord_defined [OF assms(3,4,7,8,9,10,11)] obtain xC0 where
    xC0: "row_coord xs0 xStep0 i = Some xC0" "\<bar>xC0\<bar> \<le> 1000000000" by blast
  from row_coord_defined [OF assms(5,6,7,8,9,10,11)] obtain xC1 where
    xC1: "row_coord xs1 xStep1 i = Some xC1" "\<bar>xC1\<bar> \<le> 1000000000" by blast
  from scan_span_defined [OF xC0(2) xC1(2), of y color] obtain ps where
    "scan_span xC0 xC1 y color = Some ps" by blast
  then show ?thesis by (simp add: scan_row_def y xC0 xC1)
qed

lemma those_map_defined:
  assumes "\<And>x. x \<in> set xs \<Longrightarrow> f x \<noteq> None"
  shows "those (map f xs) = Some (map (\<lambda>x. the (f x)) xs)"
  using assms
proof (induction xs)
  case Nil
  show ?case by simp
next
  case (Cons a xs)
  then obtain y where "f a = Some y" by fastforce
  with Cons show ?case by simp
qed

text \<open>
  For coordinates and steps of moderate size no row of a scan is undefined: the scan
  returns its \<open>nSteps\<close> rows.
\<close>

lemma scan_rows_defined:
  assumes "bounded S ys" "bounded T yStep" "bounded S xs0" "bounded T xStep0"
    "bounded S xs1" "bounded T xStep1"
    and "S \<le> 10000" and "T \<le> 10000" and "n \<le> 10000"
  shows "scan_rows n ys yStep xs0 xStep0 xs1 xStep1 color =
     Some (map (\<lambda>i. the (scan_row ys yStep xs0 xStep0 xs1 xStep1 color i)) [0 .. n - 1])"
  unfolding scan_rows_def
proof (rule those_map_defined)
  fix i assume "i \<in> set [0 .. n - 1]"
  then have "0 \<le> i" "i \<le> n" by simp_all
  from scan_row_defined [OF assms(1-6) this assms(7,8,9)]
  show "scan_row ys yStep xs0 xStep0 xs1 xStep1 color i \<noteq> None" .
qed

subsection \<open>The rows of a tall triangle\<close>

lemma tall_sorted:
  "triangle_sort (Fin 0, Fin 0, Fin 76, Fin 1, Fin 0, Fin 152) = (Fin 0, Fin 0, Fin 76, Fin 1, Fin 0, Fin 152)"
  by (simp add: triangle_sort_def swap01_def swap12_def swap02_def fp_eval cong: eval_cong)

lemma tall_top:
  "triangle_top (Fin 0, Fin 0, Fin 76, Fin 1, Fin 0, Fin 152) 1 = Some [((0, 0, 0), [])]"
  by (simp add: tri_eval fp_eval cong: eval_cong)

lemma tall_bottom:
  "triangle_bottom (Fin 0, Fin 0, Fin 76, Fin 1, Fin 0, Fin 152) 1 =
     scan_rows 151 (Fin 1) (Fin (4548635623644201 / 4503599627370496)) (Fin 0) (Fin 0)
       (Fin 76) (Fin (- (4533424790465665 / 9007199254740992))) 1"
  by (simp add: triangle_bottom_def xMiddle_of_def fp_eval cong: eval_cong)

lemma tall_row_150:
  "scan_row (Fin 1) (Fin (4548635623644201 / 4503599627370496)) (Fin 0) (Fin 0)
       (Fin 76) (Fin (- (4533424790465665 / 9007199254740992))) 1 150 = Some ((153, 0, 1), [(0, 153, 1)])"
  by (simp add: scan_row_def row_coord_def scan_span_def upto.simps fp_eval cong: eval_cong)

lemma in_concat_snd: "r \<in> set rows \<Longrightarrow> p \<in> set (snd r) \<Longrightarrow> p \<in> set (concat (map snd rows))"
  by auto

text \<open>
  Claim C5. Every pixel of a non-degenerate triangle is claimed to lie on a row between the
  top and the bottom vertex. The triangle \<open>(0,0), (76,1), (0,152)\<close> has no two vertices on
  one row and is not flat. Its lower part has 151 rows and the step \<open>151 / 151 + 0.01\<close>:
  row 150 is \<open>(int) (1 + 1.01 * 150 + 0.5) = 153\<close>, below the bottom vertex at \<open>y = 152\<close>,
  and the call plots \<open>(0, 153)\<close> there.
\<close>

theorem tall_triangle_plots_below_bottom:
  "\<exists>ps. driver_framebuffer_triangle (Fin 0) (Fin 0) (Fin 76) (Fin 1) (Fin 0) (Fin 152) 1 = Some ps
     \<and> (0, 153, 1) \<in> set ps"
proof -
  let ?row = "scan_row (Fin 1) (Fin (4548635623644201 / 4503599627370496)) (Fin 0) (Fin 0)
       (Fin 76) (Fin (- (4533424790465665 / 9007199254740992))) 1"
  have "scan_rows 151 (Fin 1) (Fin (4548635623644201 / 4503599627370496)) (Fin 0) (Fin 0)
       (Fin 76) (Fin (- (4533424790465665 / 9007199254740992))) 1 =
     Some (map (\<lambda>i. the (?row i)) [0 .. 151 - 1])"
    by (rule scan_rows_defined [where S = 76 and T = 2]) (simp_all add: bounded_def)
  then have rows: "triangle_rows (Fin 0) (Fin 0) (Fin 76) (Fin 1) (Fin 0) (Fin 152) 1 =
      Some (((0, 0, 0), []) # map (\<lambda>i. the (?row i)) [0 .. 150])"
    by (simp add: triangle_rows_scan tall_sorted triangle_scan_def tall_top tall_bottom)
  have "the (?row 150) \<in> set (map (\<lambda>i. the (?row i)) [0 .. 150])"
    by (rule imageI [of 150 "set [0 .. 150]" "\<lambda>i. the (?row i)", unfolded set_map [symmetric]]) simp
  then have "((153, 0, 1), [(0, 153, 1)]) \<in> set (map (\<lambda>i. the (?row i)) [0 .. 150])"
    by (simp only: tall_row_150 option.sel)
  then have "((153, 0, 1), [(0, 153, 1)]) \<in> set (((0, 0, 0), []) # map (\<lambda>i. the (?row i)) [0 .. 150])"
    by (rule list.set_intros(2))
  then have "(0, 153, 1) \<in> set (concat (map snd (((0, 0, 0), []) # map (\<lambda>i. the (?row i)) [0 .. 150])))"
    by (rule in_concat_snd) simp
  with rows show ?thesis
    by (simp add: driver_framebuffer_triangle_def)
qed

subsection \<open>Degenerate triangles\<close>

text \<open>
  Every call that returns has executed the seven divisions of the body: no branch of the
  source stands before any of them.
\<close>

lemma triangle_run_divisions:
  assumes "triangle_run x0 y0 x1 y1 x2 y2 color = Some (rows, ds)"
  shows "length ds = 7"
proof -
  obtain a0 b0 a1 b1 a2 b2 where v: "triangle_sort (x0, y0, x1, y1, x2, y2) = (a0, b0, a1, b1, a2, b2)"
    by (metis prod_cases6)
  from assms show ?thesis
    unfolding triangle_run_def v triangle_body_def divide_def
    by (auto simp: Let_def split: Option.bind_splits)
qed

text \<open>
  Claim C9. There is an input with degenerate geometry, the three vertices \<open>(0,0)\<close>,
  \<open>(1,0)\<close>, \<open>(2,0)\<close> on one horizontal line, for which the call executes divisions by
  zero: it executes the seven divisions of the body, the divisor of each one is zero
  (\<open>(double) nSteps\<close> of the upper part, \<open>y2 - y0\<close> of the middle-x computation,
  \<open>(double) nSteps\<close> twice more, and \<open>(double) nSteps\<close> of the lower part three times), and
  nothing stops the call: it scans no row and returns without a \<open>setPixel\<close> call.
\<close>

theorem triangle_divides_by_zero:
  "triangle_run (Fin 0) (Fin 0) (Fin 1) (Fin 0) (Fin 2) (Fin 0) color =
     Some ([], [Fin 0, Fin 0, Fin 0, Fin 0, Fin 0, Fin 0, Fin 0]) \<and>
   driver_framebuffer_triangle (Fin 0) (Fin 0) (Fin 1) (Fin 0) (Fin 2) (Fin 0) color = Some []"
proof -
  have run: "triangle_run (Fin 0) (Fin 0) (Fin 1) (Fin 0) (Fin 2) (Fin 0) color =
     Some ([], [Fin 0, Fin 0, Fin 0, Fin 0, Fin 0, Fin 0, Fin 0])"
    by (simp add: triangle_run_def triangle_body_def divide_def tri_eval fp_eval cong: eval_cong)
  then show ?thesis
    by (simp add: driver_framebuffer_triangle_def triangle_rows_def)
qed

lemma to_int_c_0_9999: "to_int (dadd z c_0_9999) = Some 0" if "is_zero z"
proof -
  have a: "dadd (Fin 0) c_0_9999 = c_0_9999"
    unfolding c_0_9999_val by (simp add: fp_eval cong: eval_cong)
  have b: "dadd NegZero c_0_9999 = c_0_9999"
    unfolding c_0_9999_val by (simp add: dadd_def is_inf_def)
  have c: "to_int c_0_9999 = Some 0"
    unfolding c_0_9999_val by (simp add: fp_eval cong: eval_cong)
  from that a b c show ?thesis
    by (auto simp: is_zero_def)
qed

lemma deq_no_dlt: "deq a b \<Longrightarrow> \<not> dlt a b \<and> \<not> dlt b a"
  by (auto simp: deq_def dlt_def is_inf_def split: if_splits)

lemma deq_trans: "deq a b \<Longrightarrow> deq b c \<Longrightarrow> deq a c"
  by (auto simp: deq_def is_inf_def split: if_splits)

lemma deq_finite: "deq a b \<Longrightarrow> is_finite a \<Longrightarrow> is_finite b"
  by (cases a; cases b) (auto simp: deq_def is_inf_def is_finite_def split: if_splits)

lemma dsub_deq_zero: "deq a b \<Longrightarrow> is_finite a \<Longrightarrow> is_zero (dsub b a)"
  by (cases a; cases b)
     (auto simp: deq_def is_inf_def is_finite_def is_zero_def dsub_def dadd_def dneg_def dval_def
           split: if_splits)

lemma scan_rows_zero: "scan_rows 0 ys yStep xs0 xStep0 xs1 xStep1 color = Some []"
  by (simp add: scan_rows_def)

text \<open>
  Claim C10, as stated, fails when the common \<open>y\<close> is an infinity: then \<open>y1 - y0\<close> is a
  NaN and the conversion \<open>(int) (yDist + 0.9999)\<close> is undefined, so the step counts are
  not zero but undefined.
\<close>

theorem flat_triangle_at_infinity_undefined:
  "deq PInf PInf \<and> driver_framebuffer_triangle (Fin 0) PInf (Fin 1) PInf (Fin 2) PInf 1 = None"
  by (simp add: tri_eval fp_eval cong: eval_cong)

text \<open>
  Claim C10, amended. When the three vertices have the same finite \<open>y\<close> (equal as
  \<open>double\<close>s, so \<open>0.0\<close> and \<open>-0.0\<close> count as the same), no pass swaps, both step counts
  are \<open>(int) (0 + 0.9999) = 0\<close>, both row loops run zero times and the call returns
  without a \<open>setPixel\<close>, whatever the \<open>x\<close> coordinates are.
\<close>

theorem flat_triangle_plots_nothing:
  assumes "is_finite y0" and "deq y0 y1" and "deq y1 y2"
  shows "driver_framebuffer_triangle x0 y0 x1 y1 x2 y2 color = Some []"
proof -
  have f1: "is_finite y1" using assms deq_finite by blast
  have e02: "deq y0 y2" using assms deq_trans by blast
  have sorted: "triangle_sort (x0, y0, x1, y1, x2, y2) = (x0, y0, x1, y1, x2, y2)"
    using deq_no_dlt [OF assms(2)] deq_no_dlt [OF assms(3)] deq_no_dlt [OF e02]
    by (simp add: triangle_sort_def swap01_def swap12_def swap02_def)
  have top: "triangle_top (x0, y0, x1, y1, x2, y2) color = Some []"
    using to_int_c_0_9999 [OF dsub_deq_zero [OF assms(2) assms(1)]]
    by (simp add: triangle_top_def scan_rows_zero)
  have bottom: "triangle_bottom (x0, y0, x1, y1, x2, y2) color = Some []"
    using to_int_c_0_9999 [OF dsub_deq_zero [OF assms(3) f1]]
    by (simp add: triangle_bottom_def scan_rows_zero)
  show ?thesis
    by (simp add: driver_framebuffer_triangle_def triangle_rows_scan sorted triangle_scan_def top bottom)
qed

theorem flat_triangle_plots_nothing_witness:
  "is_finite (Fin 7) \<and> deq (Fin 7) (Fin 7) \<and>
   driver_framebuffer_triangle (Fin 0) (Fin 7) (Fin 5) (Fin 7) (Fin 9) (Fin 7) 1 = Some []"
proof -
  have a: "is_finite (Fin 7)" by (simp add: is_finite_def)
  have b: "deq (Fin 7) (Fin 7)" by (simp add: deq_def is_inf_def)
  from flat_triangle_plots_nothing [OF a b b] a b show ?thesis by blast
qed

section \<open>Properties of Quad\<close>

text \<open>
  Claim C6. Quad is claimed to plot the triangles of both diagonal splits of
  \<open>p0 \<rightarrow> p1 \<rightarrow> p2 \<rightarrow> p3\<close>, that is \<open>p0 p1 p2\<close> with \<open>p0 p2 p3\<close>, and \<open>p0 p1 p3\<close> with
  \<open>p1 p2 p3\<close>. The source calls Triangle on \<open>p0 p1 p2\<close>, \<open>p1 p3 p2\<close>, \<open>p0 p1 p3\<close> and
  \<open>p1 p2 p3\<close>: the second and the fourth call fill the same triangle, and \<open>p0 p2 p3\<close> is
  never filled. For the parallelogram \<open>(0,1), (8,0), (8,2), (0,3)\<close> Triangle on
  \<open>p0 p2 p3\<close> plots \<open>(0,2)\<close>, on the left edge, and Quad does not.
\<close>

theorem quad_leaves_out_a_triangle:
  "driver_framebuffer_quad (Fin 0) (Fin 1) (Fin 8) (Fin 0) (Fin 8) (Fin 2) (Fin 0) (Fin 3) 1 = Some
     [(8, 1, 1), (7, 1, 1), (6, 1, 1), (5, 1, 1), (4, 1, 1), (3, 1, 1), (2, 1, 1), (1, 1, 1),
      (5, 1, 1), (6, 1, 1), (7, 1, 1),
      (3, 2, 1), (4, 2, 1), (5, 2, 1), (6, 2, 1), (7, 2, 1),
      (5, 1, 1), (4, 1, 1), (3, 1, 1), (2, 1, 1), (1, 1, 1),
      (3, 2, 1), (2, 2, 1), (1, 2, 1),
      (5, 1, 1), (6, 1, 1), (7, 1, 1),
      (3, 2, 1), (4, 2, 1), (5, 2, 1), (6, 2, 1), (7, 2, 1)]
   \<and> driver_framebuffer_triangle (Fin 0) (Fin 1) (Fin 8) (Fin 2) (Fin 0) (Fin 3) 1 = Some
     [(0, 2, 1), (1, 2, 1), (2, 2, 1), (3, 2, 1), (4, 2, 1), (5, 2, 1), (6, 2, 1), (7, 2, 1)]"
  by (simp add: driver_framebuffer_quad_def tri_eval fp_eval cong: eval_cong)

section \<open>Properties of Circle\<close>

lemma circle_step_box:
  assumes p: "\<bar>fst p\<bar> \<le> 16000" "\<bar>snd p\<bar> \<le> 16000"
    and q: "\<And>q. prev = Some q \<Longrightarrow> \<bar>fst q\<bar> \<le> 16000 \<and> \<bar>snd q\<bar> \<le> 16000"
  shows "\<exists>ps. circle_step color prev p = Some ps \<and>
     (\<forall>pix \<in> set ps. \<exists>x y. pix = (x, y, color) \<and>
        (case prev of
           None \<Rightarrow> x = fst p \<and> y = snd p
         | Some q \<Rightarrow> min (fst q) (fst p) \<le> x \<and> x \<le> max (fst q) (fst p) \<and>
                     min (snd q) (snd p) \<le> y \<and> y \<le> max (snd q) (snd p)))"
proof (cases prev)
  case None
  then show ?thesis by (simp add: circle_step_def)
next
  case (Some q)
  note qb = q [OF Some]
  show ?thesis
  proof (cases "fst q \<noteq> fst p \<or> snd q \<noteq> snd p")
    case False
    then show ?thesis using Some by (simp add: circle_step_def)
  next
    case True
    have s: "sint (word_of_int (fst q) :: int16) = fst q" "sint (word_of_int (snd q) :: int16) = snd q"
      "sint (word_of_int (fst p) :: int16) = fst p" "sint (word_of_int (snd p) :: int16) = snd p"
      using p qb by (auto simp: abs_le_iff intro!: sint_word_of_int16)
    from line_box [of "word_of_int (fst q)" "word_of_int (snd q)" "word_of_int (fst p)"
        "word_of_int (snd p)" color] p qb
    show ?thesis
      using True Some unfolding s by (simp add: circle_step_def)
  qed
qed

lemma circle_ring_avoids:
  fixes R :: "int \<Rightarrow> int \<Rightarrow> bool"
  assumes smp: "\<And>i. a0 \<le> i \<Longrightarrow> i \<le> b \<Longrightarrow>
            \<exists>p. smp i = Some p \<and> \<bar>fst p\<bar> \<le> 16000 \<and> \<bar>snd p\<bar> \<le> 16000 \<and> \<not> R (fst p) (snd p)"
    and pair: "\<And>i x y. a0 < i \<Longrightarrow> i \<le> b \<Longrightarrow>
            min (fst (the (smp (i - 1)))) (fst (the (smp i))) \<le> x \<Longrightarrow>
            x \<le> max (fst (the (smp (i - 1)))) (fst (the (smp i))) \<Longrightarrow>
            min (snd (the (smp (i - 1)))) (snd (the (smp i))) \<le> y \<Longrightarrow>
            y \<le> max (snd (the (smp (i - 1)))) (snd (the (smp i))) \<Longrightarrow> \<not> R x y"
    and a: "a0 \<le> a"
    and prev: "(a = a0 \<and> prev = None) \<or> (a0 < a \<and> prev = smp (a - 1))"
  shows "\<exists>ps. circle_ring smp color prev [a .. b] = Some ps \<and>
           (\<forall>x y. R x y \<longrightarrow> (x, y, color) \<notin> set ps)"
  using a prev
proof (induction "nat (b + 1 - a)" arbitrary: a prev)
  case 0
  then have "[a .. b] = []" by simp
  then show ?case by simp
next
  case (Suc n)
  then have ab: "a \<le> b" by simp
  then have up: "[a .. b] = a # [a + 1 .. b]" by (simp add: upto_rec1)
  from smp [OF Suc.prems(1) ab] obtain p where
    p: "smp a = Some p" "\<bar>fst p\<bar> \<le> 16000" "\<bar>snd p\<bar> \<le> 16000" "\<not> R (fst p) (snd p)"
    by blast
  have qb: "\<bar>fst q\<bar> \<le> 16000 \<and> \<bar>snd q\<bar> \<le> 16000" if "prev = Some q" for q
  proof -
    from that Suc.prems(2) have lt: "a0 < a" and q: "smp (a - 1) = Some q" by auto
    from smp [of "a - 1"] lt ab q show ?thesis by auto
  qed
  from circle_step_box [OF p(2,3) qb, of prev color] obtain ps1 where
    ps1: "circle_step color prev p = Some ps1"
    and box: "\<And>pix. pix \<in> set ps1 \<Longrightarrow> \<exists>x y. pix = (x, y, color) \<and>
        (case prev of
           None \<Rightarrow> x = fst p \<and> y = snd p
         | Some q \<Rightarrow> min (fst q) (fst p) \<le> x \<and> x \<le> max (fst q) (fst p) \<and>
                     min (snd q) (snd p) \<le> y \<and> y \<le> max (snd q) (snd p))"
    by blast
  have free1: "(x, y, color) \<notin> set ps1" if "R x y" for x y
  proof
    assume "(x, y, color) \<in> set ps1"
    from box [OF this] have c: "case prev of
           None \<Rightarrow> x = fst p \<and> y = snd p
         | Some q \<Rightarrow> min (fst q) (fst p) \<le> x \<and> x \<le> max (fst q) (fst p) \<and>
                     min (snd q) (snd p) \<le> y \<and> y \<le> max (snd q) (snd p)" by simp
    show False
    proof (cases prev)
      case None
      with c p(4) that show False by simp
    next
      case (Some q)
      with Suc.prems(2) have lt: "a0 < a" and q: "smp (a - 1) = Some q" by auto
      from c Some have "min (fst q) (fst p) \<le> x" "x \<le> max (fst q) (fst p)"
        "min (snd q) (snd p) \<le> y" "y \<le> max (snd q) (snd p)" by simp_all
      with pair [OF lt ab, of x y] q p(1) that show False by simp
    qed
  qed
  have n: "n = nat (b + 1 - (a + 1))" using Suc(2) by simp
  have "\<exists>ps. circle_ring smp color (Some p) [a + 1 .. b] = Some ps \<and>
           (\<forall>x y. R x y \<longrightarrow> (x, y, color) \<notin> set ps)"
    using Suc.prems(1) p(1) by (intro Suc(1) [OF n]) auto
  then obtain ps2 where ps2: "circle_ring smp color (Some p) [a + 1 .. b] = Some ps2"
    "\<forall>x y. R x y \<longrightarrow> (x, y, color) \<notin> set ps2" by blast
  have "circle_ring smp color prev [a .. b] = Some (ps1 @ ps2)"
    by (simp add: up p(1) ps1 ps2(1))
  with free1 ps2(2) show ?case by auto
qed

lemma circle_ring_first:
  assumes "circle_ring smp color None (a # is) = Some ps" and "smp a = Some (x, y)"
  shows "(x, y, color) \<in> set ps"
  using assms by (auto simp: circle_step_def split: Option.bind_splits)

text \<open>
  An outline circle of radius 1000 from 0 to 360 degrees is the ring of its samples.
\<close>

lemma circle_outline_ring:
  "driver_framebuffer_circle cosd sind x0 y0 1000 0 360 False color =
     circle_ring (circle_sample cosd sind x0 y0 1000) color None [0 .. 359]"
proof -
  have "[(1000 :: int) .. 1000] = [1000]" by (simp add: upto.simps)
  then show ?thesis
    by (cases "circle_ring (circle_sample cosd sind x0 y0 1000) color None [0 .. 359]")
       (simp_all add: driver_framebuffer_circle_def)
qed

lemma ring_profileD:
  assumes "ring_profile smp" and "0 \<le> i" and "i \<le> 359"
  shows "\<exists>x y. smp i = Some (x, y) \<and> \<bar>x\<bar> \<le> 1000 \<and> \<bar>y\<bar> \<le> 1000 \<and>
          (if i \<le> 180 then 0 \<le> y else y \<le> - 17) \<and> (i = 180 \<or> i = 181 \<longrightarrow> x \<le> 0)"
proof -
  have "i \<in> set [0 .. 359]" using assms(2,3) by simp
  with assms(1) have c: "case smp i of
                  None \<Rightarrow> False
                | Some (x, y) \<Rightarrow> \<bar>x\<bar> \<le> 1000 \<and> \<bar>y\<bar> \<le> 1000 \<and>
                    (if i \<le> 180 then 0 \<le> y else y \<le> - 17) \<and>
                    (i = 180 \<or> i = 181 \<longrightarrow> x \<le> 0)"
    unfolding ring_profile_def list_all_iff by blast
  then obtain x y where "smp i = Some (x, y)" by (cases "smp i") auto
  with c show ?thesis by simp
qed

text \<open>
  Claim C7. A full circle is claimed to be a closed ring with every pair of successive
  samples joined, also around the full sweep. The loop joins sample \<open>i - 1\<close> to sample
  \<open>i\<close> for \<open>0 < i < 360\<close> only: nothing joins the sample of 359 degrees back to the sample
  of 0 degrees. For radius 1000 around \<open>(0,0)\<close> these two are \<open>(999, -17)\<close> and \<open>(1000, 0)\<close>.
  For every sampling with the profile of such a ring (\<open>ring_profile\<close>; with
  \<open>circle_outline_ring\<close>, \<open>smp\<close> is \<open>circle_sample cosd sind 0 0 1000\<close>), the loop returns
  and plots \<open>(1000, 0)\<close>, but no pixel right of the centre on the rows \<open>-16\<close> to \<open>-1\<close>:
  the ring is open there.
\<close>

theorem circle_full_ring_open:
  assumes "ring_profile smp"
  shows "\<exists>ps. circle_ring smp color None [0 .. 359] = Some ps \<and>
     (1000, 0, color) \<in> set ps \<and>
     (\<forall>x y. 0 < x \<and> - 17 < y \<and> y < 0 \<longrightarrow> (x, y, color) \<notin> set ps)"
proof -
  let ?R = "\<lambda>x y :: int. 0 < x \<and> - 17 < y \<and> y < 0"
  note prof = ring_profileD [OF assms]
  from assms have first: "smp 0 = Some (1000, 0)"
    by (simp add: ring_profile_def)
  have "\<exists>ps. circle_ring smp color None [0 .. 359] = Some ps \<and>
           (\<forall>x y. ?R x y \<longrightarrow> (x, y, color) \<notin> set ps)"
  proof (rule circle_ring_avoids [where ?a0.0 = 0])
    fix i :: int assume i: "0 \<le> i" "i \<le> 359"
    from prof [OF i] show "\<exists>p. smp i = Some p \<and> \<bar>fst p\<bar> \<le> 16000 \<and> \<bar>snd p\<bar> \<le> 16000 \<and>
        \<not> ?R (fst p) (snd p)"
      by (auto split: if_splits)
  next
    fix i x y :: int
    assume i: "0 < i" "i \<le> 359"
      and box: "min (fst (the (smp (i - 1)))) (fst (the (smp i))) \<le> x"
        "x \<le> max (fst (the (smp (i - 1)))) (fst (the (smp i)))"
        "min (snd (the (smp (i - 1)))) (snd (the (smp i))) \<le> y"
        "y \<le> max (snd (the (smp (i - 1)))) (snd (the (smp i)))"
    from prof [of "i - 1"] i obtain x1 y1 where
      s1: "smp (i - 1) = Some (x1, y1)" "if i - 1 \<le> 180 then 0 \<le> y1 else y1 \<le> - 17"
        "i - 1 = 180 \<or> i - 1 = 181 \<longrightarrow> x1 \<le> 0" by auto
    from prof [of i] i obtain x2 y2 where
      s2: "smp i = Some (x2, y2)" "if i \<le> 180 then 0 \<le> y2 else y2 \<le> - 17"
        "i = 180 \<or> i = 181 \<longrightarrow> x2 \<le> 0" by auto
    consider "i \<le> 180" | "i = 181" | "182 \<le> i" by linarith
    then show "\<not> ?R x y"
    proof cases
      case 1
      with s1 s2 box show ?thesis by (auto simp: min_def max_def split: if_splits)
    next
      case 2
      with s1 s2 box show ?thesis by (auto simp: min_def max_def split: if_splits)
    next
      case 3
      with s1 s2 box show ?thesis by (auto simp: min_def max_def split: if_splits)
    qed
  qed simp_all
  then obtain ps where ps: "circle_ring smp color None [0 .. 359] = Some ps"
    "\<forall>x y. ?R x y \<longrightarrow> (x, y, color) \<notin> set ps" by blast
  have "[0 .. 359] = 0 # [1 .. (359 :: int)]" by (simp add: upto_rec1)
  with ps(1) have "circle_ring smp color None (0 # [1 .. 359]) = Some ps" by simp
  from circle_ring_first [OF this first] have "(1000, 0, color) \<in> set ps" .
  with ps show ?thesis by auto
qed

text \<open>The table \<open>ring_1000_samples\<close> has this profile.\<close>

lemma ring_1000_profile: "ring_profile (table_sampler ring_1000_samples)"
  by code_simp

theorem circle_full_ring_open_witness:
  "ring_profile (table_sampler ring_1000_samples) \<and>
   (\<exists>ps. circle_ring (table_sampler ring_1000_samples) 1 None [0 .. 359] = Some ps \<and>
     (1000, 0, 1) \<in> set ps \<and>
     (\<forall>x y. 0 < x \<and> - 17 < y \<and> y < 0 \<longrightarrow> (x, y, 1) \<notin> set ps))"
  using circle_full_ring_open [OF ring_1000_profile, of 1] ring_1000_profile by blast

end
